theory Spec2Isabelle
  imports Complex_Main "HOL-Library.Char_ord" "HOL-Library.List_Lexorder" "HOL-Library.Sublist"
    "HOL-Library.Log_Nat"
begin

section \<open>Python values, dictionaries and errors\<close>

text \<open>
  A message is a Python dict. The record below has one field for each key the program
  reads or writes: the keys of the source (\<open>id\<close>, \<open>user_id\<close>, \<open>user_name\<close>, \<open>message\<close>,
  \<open>timestamp\<close>) and the keys \<open>fetch_messages\<close> renames them to (\<open>member_id\<close>,
  \<open>member_name\<close>, \<open>text\<close>). A field is \<open>None\<close> when the key is absent from the dict and
  \<open>Some v\<close> when it is present with value \<open>v\<close>; a value is Python's \<open>None\<close> or a \<open>str\<close>.
  A Python \<open>str\<close> is a list of characters, each \<open>char\<close> standing for one code point
  below 256; strings compare lexicographically by code point, as the order on
  \<open>string\<close> does here.
\<close>

datatype pyval = PyNone | PyStr string

datatype error = ParserError | KeyError | IndexError | TypeError | AttributeError

record message =
  m_id :: "pyval option"
  m_user_id :: "pyval option"
  m_user_name :: "pyval option"
  m_message :: "pyval option"
  m_timestamp :: "pyval option"
  m_member_id :: "pyval option"
  m_member_name :: "pyval option"
  m_text :: "pyval option"

text \<open>\<^verbatim>\<open>m.get(k)\<close>, \<^verbatim>\<open>m.get(k, d)\<close> and \<^verbatim>\<open>m[k]\<close> on one field.\<close>

definition get :: "pyval option \<Rightarrow> pyval" where
  "get f = (case f of None \<Rightarrow> PyNone | Some v \<Rightarrow> v)"

definition get_default :: "pyval option \<Rightarrow> pyval \<Rightarrow> pyval" where
  "get_default f d = (case f of None \<Rightarrow> d | Some v \<Rightarrow> v)"

definition subscript :: "pyval option \<Rightarrow> error + pyval" where
  "subscript f = (case f of None \<Rightarrow> Inl KeyError | Some v \<Rightarrow> Inr v)"

text \<open>Truth value of a field value: \<open>None\<close> and the empty string are false.\<close>

fun truthy :: "pyval \<Rightarrow> bool" where
  "truthy PyNone = False"
| "truthy (PyStr s) = (s \<noteq> [])"

text \<open>Rendering inside an f-string: \<^verbatim>\<open>str(None)\<close> is \<^verbatim>\<open>'None'\<close>.\<close>

fun py_str :: "pyval \<Rightarrow> string" where
  "py_str PyNone = ''None''"
| "py_str (PyStr s) = s"

text \<open>
  List indexing \<^verbatim>\<open>xs[i]\<close>: a negative index counts from the end, an index out of
  range raises \<open>IndexError\<close>. The slice \<^verbatim>\<open>xs[:k]\<close> never raises: a negative \<open>k\<close> drops
  the last \<open>-k\<close> elements.
\<close>

definition py_nth :: "'a list \<Rightarrow> int \<Rightarrow> error + 'a" where
  "py_nth xs i =
     (if 0 \<le> i \<and> i < int (length xs) then Inr (xs ! nat i)
      else if i < 0 \<and> - int (length xs) \<le> i then Inr (xs ! nat (int (length xs) + i))
      else Inl IndexError)"

definition py_take :: "int \<Rightarrow> 'a list \<Rightarrow> 'a list" where
  "py_take k xs = (if 0 \<le> k then take (nat k) xs else take (nat (int (length xs) + k)) xs)"

text \<open>
  \<^verbatim>\<open>d[k].append(v)\<close> on a \<open>defaultdict(list)\<close>: a dict keeps its keys in the order of
  first insertion, so it is an association list here.
\<close>

fun defaultdict_append :: "'k \<Rightarrow> 'v \<Rightarrow> ('k \<times> 'v list) list \<Rightarrow> ('k \<times> 'v list) list" where
  "defaultdict_append k v [] = [(k, [v])]"
| "defaultdict_append k v ((k', vs) # rest) =
     (if k' = k then (k', vs @ [v]) # rest else (k', vs) # defaultdict_append k v rest)"

text \<open>\<^verbatim>\<open>range(n)\<close> for an integer \<open>n\<close>; empty when \<open>n \<le> 0\<close>.\<close>

definition py_range :: "int \<Rightarrow> int list" where
  "py_range n = [0..n - 1]"

section \<open>Date-times\<close>

text \<open>
  \<^verbatim>\<open>dateutil.parser.parse\<close> is a library function: the model takes it as a parameter
  \<open>date_parse\<close> of type \<open>string \<Rightarrow> datetime option\<close>, \<open>None\<close> standing for the
  \<open>ParserError\<close> it raises on a string it cannot read. A \<open>datetime\<close> carries its
  calendar year, the instant it denotes in microseconds, and whether it is
  timezone-aware: Python refuses to subtract an aware from a naive date-time with a
  \<open>TypeError\<close>. The difference of two date-times is a \<open>timedelta\<close>, an exact number of
  microseconds.
\<close>

record datetime =
  dt_year :: int
  dt_micros :: int
  dt_aware :: bool

definition dt_sub :: "datetime \<Rightarrow> datetime \<Rightarrow> error + int" where
  "dt_sub e s = (if dt_aware e = dt_aware s then Inr (dt_micros e - dt_micros s) else Inl TypeError)"

text \<open>
  \<^verbatim>\<open>timedelta.total_seconds()\<close> divides the microseconds by \<open>10**6\<close> with Python's true
  division of integers, whose result is the double nearest to the quotient (53 bits
  of significand, ties to the even significand). A double is a rational number here.
  \<open>bit_length n\<close> is the number of binary digits of \<open>n\<close>, so that the quotient \<open>x\<close> of
  \<open>true_div\<close> lies between \<open>2 ^ e\<close> and \<open>2 ^ (e + 1)\<close> and is rounded to a multiple of
  \<open>2 ^ (e - 52)\<close>. The spans of date-times are far from the range where a double
  overflows or loses precision near zero. Python compares a float with an integer
  exactly.
\<close>

definition round_half_even :: "rat \<Rightarrow> int" where
  "round_half_even y =
     (let f = \<lfloor>y\<rfloor>; r = y - of_int f
      in if r < 1 / 2 then f else if 1 / 2 < r then f + 1 else if even f then f else f + 1)"

function bit_length :: "int \<Rightarrow> int" where
  "bit_length n = (if n \<le> 0 then 0 else 1 + bit_length (n div 2))"
  by pat_completeness auto
termination
  by (relation "measure nat") auto

declare bit_length.simps [simp del]

definition true_div :: "int \<Rightarrow> int \<Rightarrow> rat" where
  "true_div a b =
     (if a = 0 then 0
      else
        let x = of_int a / of_int b;
            k = bit_length \<bar>a\<bar> - bit_length b;
            e = (if power_int 2 k \<le> \<bar>x\<bar> then k else k - 1);
            q = power_int 2 (e - 52)
        in of_int (round_half_even (x / q)) * q)"

definition total_seconds :: "int \<Rightarrow> rat" where
  "total_seconds micros = true_div micros 1000000"

fun parse_all :: "(string \<Rightarrow> datetime option) \<Rightarrow> string list \<Rightarrow> error + datetime list" where
  "parse_all date_parse [] = Inr []"
| "parse_all date_parse (s # ss) =
     (case date_parse s of
        None \<Rightarrow> Inl ParserError
      | Some d \<Rightarrow> (case parse_all date_parse ss of Inl e \<Rightarrow> Inl e | Inr ds \<Rightarrow> Inr (d # ds)))"

section \<open>Burst detection (\<^verbatim>\<open>detect_burst_messages\<close>, analysis.py)\<close>

record burst =
  b_user :: pyval
  b_count :: int
  b_start :: pyval
  b_end :: pyval

text \<open>\<^verbatim>\<open>user = m.get("member_name", "Unknown")\<close>\<close>

definition user_of :: "message \<Rightarrow> pyval" where
  "user_of m = get_default (m_member_name m) (PyStr ''Unknown'')"

text \<open>\<^verbatim>\<open>for m in messages: by_user[user].append(m)\<close>\<close>

definition group_by_user :: "message list \<Rightarrow> (pyval \<times> message list) list" where
  "group_by_user messages = foldl (\<lambda>d m. defaultdict_append (user_of m) m d) [] messages"

text \<open>The timestamp string of a message of \<open>valid_msgs\<close> (its timestamp is a non-empty string).\<close>

definition ts_key :: "message \<Rightarrow> string" where
  "ts_key m = py_str (get (m_timestamp m))"

text \<open>
  The sliding window of one user: \<^verbatim>\<open>for i in range(len(times) - threshold_count + 1)\<close>,
  stopping at the first window that qualifies (\<^verbatim>\<open>break\<close>). The test is
  \<^verbatim>\<open>(end - start).total_seconds() <= time_window_seconds\<close>.
\<close>

fun scan_windows :: "datetime list \<Rightarrow> message list \<Rightarrow> pyval \<Rightarrow> int \<Rightarrow> int \<Rightarrow> int list \<Rightarrow> error + burst option" where
  "scan_windows times_l valid_msgs user threshold_count time_window_seconds [] = Inr None"
| "scan_windows times_l valid_msgs user threshold_count time_window_seconds (i # rest) =
     (case py_nth times_l i of Inl e \<Rightarrow> Inl e | Inr start_dt \<Rightarrow>
      (case py_nth times_l (i + threshold_count - 1) of Inl e \<Rightarrow> Inl e | Inr end_dt \<Rightarrow>
       (case dt_sub end_dt start_dt of Inl e \<Rightarrow> Inl e | Inr d \<Rightarrow>
          if total_seconds d \<le> of_int time_window_seconds then
            (case py_nth valid_msgs i of Inl e \<Rightarrow> Inl e | Inr ms \<Rightarrow>
             (case py_nth valid_msgs (i + threshold_count - 1) of Inl e \<Rightarrow> Inl e | Inr me \<Rightarrow>
                Inr (Some \<lparr>b_user = user, b_count = threshold_count,
                           b_start = get (m_timestamp ms), b_end = get (m_timestamp me)\<rparr>)))
          else scan_windows times_l valid_msgs user threshold_count time_window_seconds rest)))"

text \<open>The body of \<^verbatim>\<open>for user, msgs in by_user.items()\<close> for one user.\<close>

definition detect_user :: "(string \<Rightarrow> datetime option) \<Rightarrow> pyval \<Rightarrow> message list \<Rightarrow> int \<Rightarrow> int \<Rightarrow> error + burst option" where
  "detect_user date_parse user msgs threshold_count time_window_seconds =
     (let valid_msgs = filter (\<lambda>m. truthy (get (m_timestamp m))) msgs in
      if valid_msgs = [] then Inr None
      else
        let valid_msgs = sort_key ts_key valid_msgs in
        case parse_all date_parse (map ts_key valid_msgs) of
          Inl e \<Rightarrow> Inl e
        | Inr times_l \<Rightarrow>
            scan_windows times_l valid_msgs user threshold_count time_window_seconds
              (py_range (int (length times_l) - threshold_count + 1)))"

fun detect_users :: "(string \<Rightarrow> datetime option) \<Rightarrow> (pyval \<times> message list) list \<Rightarrow> int \<Rightarrow> int \<Rightarrow> error + burst list" where
  "detect_users date_parse [] threshold_count time_window_seconds = Inr []"
| "detect_users date_parse ((user, msgs) # rest) threshold_count time_window_seconds =
     (case detect_user date_parse user msgs threshold_count time_window_seconds of
        Inl e \<Rightarrow> Inl e
      | Inr r \<Rightarrow>
          (case detect_users date_parse rest threshold_count time_window_seconds of
             Inl e \<Rightarrow> Inl e
           | Inr bs \<Rightarrow> Inr ((case r of None \<Rightarrow> [] | Some b \<Rightarrow> [b]) @ bs)))"

definition detect_burst_messages :: "(string \<Rightarrow> datetime option) \<Rightarrow> message list \<Rightarrow> int \<Rightarrow> int \<Rightarrow> error + burst list" where
  "detect_burst_messages date_parse messages threshold_count time_window_seconds =
     detect_users date_parse (group_by_user messages) threshold_count time_window_seconds"

section \<open>String operations\<close>

text \<open>
  The characters for which \<^verbatim>\<open>str.isspace()\<close> holds, among the code points below 256:
  tab to carriage return, the four separators 28 to 31, the space, NEL and the
  no-break space. \<^verbatim>\<open>str.strip()\<close> and the pattern \<^verbatim>\<open>\s\<close> both use this set.
\<close>

definition is_space :: "char \<Rightarrow> bool" where
  "is_space c =
     (let n = (of_char c :: nat)
      in (9 \<le> n \<and> n \<le> 13) \<or> (28 \<le> n \<and> n \<le> 32) \<or> n = 133 \<or> n = 160)"

definition strip :: "string \<Rightarrow> string" where
  "strip s = rev (dropWhile is_space (rev (dropWhile is_space s)))"

text \<open>\<^verbatim>\<open>re.sub(r"\s+", " ", s)\<close>: every maximal run of whitespace becomes one space.\<close>

function collapse_ws :: "string \<Rightarrow> string" where
  "collapse_ws [] = []"
| "collapse_ws (c # cs) =
     (if is_space c then CHR '' '' # collapse_ws (dropWhile is_space cs) else c # collapse_ws cs)"
  by pat_completeness auto
termination
  by (relation "measure length") (auto simp: length_dropWhile_le less_Suc_eq_le)

text \<open>\<^verbatim>\<open>str.lower()\<close> on code points below 256.\<close>

definition lower_char :: "char \<Rightarrow> char" where
  "lower_char c =
     (let n = (of_char c :: nat)
      in if (65 \<le> n \<and> n \<le> 90) \<or> (192 \<le> n \<and> n \<le> 222 \<and> n \<noteq> 215) then char_of (n + 32) else c)"

definition lower :: "string \<Rightarrow> string" where
  "lower s = map lower_char s"

text \<open>\<^verbatim>\<open>a in s\<close> for strings: \<open>a\<close> occurs in \<open>s\<close> as a contiguous substring.\<close>

fun is_substring :: "string \<Rightarrow> string \<Rightarrow> bool" where
  "is_substring a [] = (a = [])"
| "is_substring a (c # cs) = (prefix a (c # cs) \<or> is_substring a cs)"

text \<open>\<^verbatim>\<open>sep.join(lines)\<close>\<close>

fun join :: "string \<Rightarrow> string list \<Rightarrow> string" where
  "join sep [] = []"
| "join sep [x] = x"
| "join sep (x # y # ys) = x @ sep @ join sep (y # ys)"

definition newline :: string where
  "newline = [CHR 0x0A]"

text \<open>\<^verbatim>\<open>str(n)\<close> for a natural number: its decimal digits.\<close>

definition digit_char :: "nat \<Rightarrow> char" where
  "digit_char d = ''0123456789'' ! d"

function str_of_nat :: "nat \<Rightarrow> string" where
  "str_of_nat n = (if n < 10 then [digit_char n] else str_of_nat (n div 10) @ [digit_char (n mod 10)])"
  by pat_completeness auto
termination
  by (relation "measure id") auto

section \<open>The scanner of \<^verbatim>\<open>main\<close> (analysis.py)\<close>

text \<open>
  \<^verbatim>\<open>lengths = [len(m.get("text", "")) for m in messages]\<close>: \<^verbatim>\<open>len(None)\<close> raises
  \<open>TypeError\<close>.
\<close>

fun text_lengths :: "message list \<Rightarrow> error + nat list" where
  "text_lengths [] = Inr []"
| "text_lengths (m # ms) =
     (case get_default (m_text m) (PyStr []) of
        PyNone \<Rightarrow> Inl TypeError
      | PyStr t \<Rightarrow> (case text_lengths ms of Inl e \<Rightarrow> Inl e | Inr ls \<Rightarrow> Inr (length t # ls)))"

text \<open>\<^verbatim>\<open>(m.get("text") or "").strip()\<close>\<close>

definition trimmed_text :: "message \<Rightarrow> string" where
  "trimmed_text m = strip (case get (m_text m) of PyNone \<Rightarrow> [] | PyStr t \<Rightarrow> t)"

text \<open>
  The duplicate-text scan, lines 186 to 192: \<open>text_map\<close> collects the ids by trimmed
  text, \<^verbatim>\<open>m["id"]\<close> raising \<open>KeyError\<close> when the key is absent; the groups of more than
  one id are kept.
\<close>

fun text_map_loop :: "message list \<Rightarrow> (string \<times> pyval list) list \<Rightarrow> error + (string \<times> pyval list) list" where
  "text_map_loop [] text_map = Inr text_map"
| "text_map_loop (m # ms) text_map =
     (let txt = trimmed_text m in
      if txt \<noteq> [] then
        (case subscript (m_id m) of
           Inl e \<Rightarrow> Inl e
         | Inr i \<Rightarrow> text_map_loop ms (defaultdict_append txt i text_map))
      else text_map_loop ms text_map)"

definition duplicate_scan :: "message list \<Rightarrow> error + (string \<times> pyval list) list" where
  "duplicate_scan messages =
     (case text_map_loop messages [] of
        Inl e \<Rightarrow> Inl e
      | Inr text_map \<Rightarrow> Inr (filter (\<lambda>(txt, ids). length ids > 1) text_map))"

text \<open>
  The impossible-timestamp check, lines 198 to 210. \<open>now_year\<close> is
  \<^verbatim>\<open>datetime.now().year\<close>; a timestamp that does not parse is skipped by the
  \<^verbatim>\<open>except Exception: continue\<close>.
\<close>

fun impossible_times :: "(string \<Rightarrow> datetime option) \<Rightarrow> int \<Rightarrow> message list \<Rightarrow> message list" where
  "impossible_times date_parse now_year [] = []"
| "impossible_times date_parse now_year (m # ms) =
     (let future_cutoff_year = now_year + 2; ts = get (m_timestamp m) in
      if \<not> truthy ts then impossible_times date_parse now_year ms
      else
        (case date_parse (py_str ts) of
           None \<Rightarrow> impossible_times date_parse now_year ms
         | Some dt \<Rightarrow>
             if dt_year dt > future_cutoff_year then m # impossible_times date_parse now_year ms
             else impossible_times date_parse now_year ms))"

section \<open>The underspecified-intent classifier (\<^verbatim>\<open>detect_underspecified_requests_gpt\<close>)\<close>

text \<open>
  The completion service and \<^verbatim>\<open>json.loads\<close> are parameters. A call of the service
  with the system and the user prompt either raises (anything raised inside the
  \<^verbatim>\<open>try\<close> up to \<^verbatim>\<open>.strip()\<close>) or yields the reply text. \<open>json_loads\<close> returns \<open>None\<close>
  for the \<open>JSONDecodeError\<close>.
\<close>

datatype json = JNull | JBool bool | JInt int | JFloat string | JStr string
  | JArr "json list" | JObj "(string \<times> json) list"

datatype completion = Call_raises | Content string

definition action_words :: "string list" where
  "action_words = [''book'', ''reserve'', ''schedule'', ''arrange'', ''order'', ''buy'']"

text \<open>
  Lines 92 to 96. \<^verbatim>\<open>m.get("text", "")\<close> is \<open>None\<close> when the key is present with value
  \<open>None\<close>, and \<^verbatim>\<open>None.lower()\<close> raises \<open>AttributeError\<close>, outside the \<^verbatim>\<open>try\<close>.
\<close>

fun candidate_msgs :: "message list \<Rightarrow> error + message list" where
  "candidate_msgs [] = Inr []"
| "candidate_msgs (m # ms) =
     (case get_default (m_text m) (PyStr []) of
        PyNone \<Rightarrow> Inl AttributeError
      | PyStr t \<Rightarrow>
          (case candidate_msgs ms of
             Inl e \<Rightarrow> Inl e
           | Inr cs \<Rightarrow> Inr (if list_ex (\<lambda>a. is_substring a (lower t)) action_words then m # cs else cs)))"

text \<open>Lines 105 to 130: the numbered listing and the two prompts.\<close>

definition listing_line :: "nat \<times> message \<Rightarrow> string" where
  "listing_line p =
     (case p of (idx, m) \<Rightarrow>
        str_of_nat idx @ ''. '' @ py_str (get_default (m_member_name m) (PyStr ''Unknown'')) @ '': '' @
        map (\<lambda>c. if c = CHR 0x0A then CHR '' '' else c) (py_str (get_default (m_text m) (PyStr []))))"

definition system_prompt :: string where
  "system_prompt =
     ''You are an expert concierge operations assistant.'' @ newline @
     ''You will be given a list of messages where clients are asking to book, reserve, schedule, '' @
     ''or arrange something.'' @ newline @ newline @
     ''Your job is to mark which messages are UNDERSPECIFIED, meaning:'' @ newline @
     '' - A human concierge could not safely complete the request as written, because key details are missing.'' @ newline @
     ''Examples of missing details include: date, time, number of people, origin/destination when relevant, '' @
     ''or other critical parameters.'' @ newline @
     ''If a request has enough information to proceed or at least schedule a follow-up, consider it specified.'' @ newline @ newline @
     ''Return ONLY a JSON array of integers representing the line numbers of underspecified messages.'' @ newline @
     ''If none are underspecified, return an empty JSON array: [].''"

definition user_prompt :: "message list \<Rightarrow> string" where
  "user_prompt cands =
     ''Here are the messages:'' @ newline @ newline @
     join newline (map listing_line (enumerate 1 cands)) @ newline @ newline @
     ''Which line numbers are underspecified? Answer ONLY with a JSON array of integers, e.g. [1, 4, 7].''"

text \<open>
  \<^verbatim>\<open>isinstance(i, int)\<close>: \<open>bool\<close> is a subclass of \<open>int\<close> in Python, so \<^verbatim>\<open>True\<close> passes
  the test and counts as \<open>1\<close>, \<^verbatim>\<open>False\<close> as \<open>0\<close>; a float does not pass.
\<close>

fun as_int :: "json \<Rightarrow> int option" where
  "as_int (JInt n) = Some n"
| "as_int (JBool b) = Some (if b then 1 else 0)"
| "as_int j = None"

text \<open>Lines 150 to 153: one append for each entry that passes the test.\<close>

fun map_indices :: "message list \<Rightarrow> json list \<Rightarrow> message list" where
  "map_indices cands [] = []"
| "map_indices cands (j # js) =
     (case as_int j of
        None \<Rightarrow> map_indices cands js
      | Some i \<Rightarrow>
          if 1 \<le> i \<and> i \<le> int (length cands) then cands ! nat (i - 1) # map_indices cands js
          else map_indices cands js)"

definition detect_underspecified_requests_gpt ::
  "string option \<Rightarrow> (string \<Rightarrow> string \<Rightarrow> completion) \<Rightarrow> (string \<Rightarrow> json option) \<Rightarrow>
   message list \<Rightarrow> int \<Rightarrow> error + message list" where
  "detect_underspecified_requests_gpt api_key service json_loads messages max_examples =
     (if api_key = None \<or> api_key = Some [] then Inr []
      else
        (case candidate_msgs messages of
           Inl e \<Rightarrow> Inl e
         | Inr cands \<Rightarrow>
             (if cands = [] then Inr []
              else
                (let cands = py_take max_examples cands in
                  (case service system_prompt (user_prompt cands) of
                     Call_raises \<Rightarrow> Inr []
                   | Content content \<Rightarrow>
                       (case json_loads (strip content) of
                          None \<Rightarrow> Inr []
                        | Some underspecified_indices \<Rightarrow>
                            (case underspecified_indices of
                               JArr entries \<Rightarrow> Inr (map_indices cands entries)
                             | _ \<Rightarrow> Inr [])))))))"

section \<open>Fetching (\<^verbatim>\<open>fetch_messages\<close>, qa.py)\<close>

text \<open>
  The remote source is a parameter: \<open>source n skip limit\<close> is what the \<open>n\<close>-th request
  of a run (counted from 0) meets when it is sent with the parameters
  \<^verbatim>\<open>{"skip": skip, "limit": limit}\<close>. The request either gets status 403 or 401, or
  raises inside the \<^verbatim>\<open>try\<close> (a transport error, any other status through
  \<^verbatim>\<open>raise_for_status\<close>, a body that is not JSON), or yields the list under
  \<^verbatim>\<open>"items"\<close>.
\<close>

datatype response = Status403 | Status401 | Raises | Items "message list"

text \<open>
  The variables of the loop. \<open>fs_requests\<close> is not a variable of the program: it
  records the parameters \<open>(skip, limit)\<close> of every request made, in order.
\<close>

record fetch_state =
  fs_all_msgs :: "message list"
  fs_skip :: int
  fs_requests :: "(int \<times> int) list"

datatype loop_exit = Returned | Loop_left

definition page_size :: int where
  "page_size = 100"

text \<open>
  \<^verbatim>\<open>for _ in range(3)\<close>, lines 33 to 64, with the iterations that remain as the
  first numeric argument and the number of requests made so far as the second. A
  \<^verbatim>\<open>return\<close> inside the loop leaves the function, a \<^verbatim>\<open>break\<close> and the end of the
  range leave the loop, \<^verbatim>\<open>continue\<close> and the end of the body go to the next iteration.
\<close>

fun fetch_loop :: "(nat \<Rightarrow> int \<Rightarrow> int \<Rightarrow> response) \<Rightarrow> int \<Rightarrow> nat \<Rightarrow> nat \<Rightarrow> fetch_state \<Rightarrow> loop_exit \<times> fetch_state" where
  "fetch_loop source limit 0 n st = (Loop_left, st)"
| "fetch_loop source limit (Suc left) n st =
     (let st1 = st\<lparr>fs_requests := fs_requests st @ [(fs_skip st, page_size)]\<rparr> in
      case source n (fs_skip st) page_size of
        Status403 \<Rightarrow> (Returned, st1)
      | Status401 \<Rightarrow> (Returned, st1)
      | Raises \<Rightarrow> fetch_loop source limit left (Suc n) st1
      | Items items \<Rightarrow>
          if items = [] then (Loop_left, st1)
          else
            let st2 = st1\<lparr>fs_all_msgs := fs_all_msgs st1 @ items, fs_skip := fs_skip st1 + page_size\<rparr> in
            if fs_skip st2 \<ge> limit then (Loop_left, st2)
            else fetch_loop source limit left (Suc n) st2)"

text \<open>
  Lines 67 to 70: \<^verbatim>\<open>m.pop(k, d)\<close> removes the key and yields its value, or \<open>d\<close> when
  the key is absent; \<^verbatim>\<open>v or ""\<close> is \<open>v\<close> unless \<open>v\<close> is false.
\<close>

definition normalize :: "message \<Rightarrow> message" where
  "normalize m =
     m\<lparr>m_member_id := Some (get (m_user_id m)), m_user_id := None,
       m_member_name := Some (get (m_user_name m)), m_user_name := None,
       m_text := Some (let v = get_default (m_message m) (PyStr []) in if truthy v then v else PyStr []),
       m_message := None\<rparr>"

definition fetch_run :: "(nat \<Rightarrow> int \<Rightarrow> int \<Rightarrow> response) \<Rightarrow> int \<Rightarrow> fetch_state" where
  "fetch_run source limit =
     (case fetch_loop source limit 3 0 \<lparr>fs_all_msgs = [], fs_skip = 0, fs_requests = []\<rparr> of
        (Returned, st) \<Rightarrow> st
      | (Loop_left, st) \<Rightarrow> st\<lparr>fs_all_msgs := map normalize (fs_all_msgs st)\<rparr>)"

definition fetch_messages :: "(nat \<Rightarrow> int \<Rightarrow> int \<Rightarrow> response) \<Rightarrow> int \<Rightarrow> message list" where
  "fetch_messages source limit = fs_all_msgs (fetch_run source limit)"

text \<open>The responses that the requests of a run met, in order.\<close>

definition responses :: "(nat \<Rightarrow> int \<Rightarrow> int \<Rightarrow> response) \<Rightarrow> (int \<times> int) list \<Rightarrow> response list" where
  "responses source reqs = map (\<lambda>(n, skip, limit). source n skip limit) (enumerate 0 reqs)"

fun nonempty_page :: "response \<Rightarrow> bool" where
  "nonempty_page (Items items) = (items \<noteq> [])"
| "nonempty_page r = False"

fun page_items :: "response \<Rightarrow> message list" where
  "page_items (Items items) = items"
| "page_items r = []"

section \<open>The analysis run (\<^verbatim>\<open>main\<close>, analysis.py)\<close>

record report =
  r_duplicate_msgs :: "(string \<times> pyval list) list"
  r_missing_user :: "message list"
  r_missing_text :: "message list"
  r_missing_timestamp :: "message list"
  r_short_msgs :: "message list"
  r_impossible_times :: "message list"
  r_burst_cases :: "burst list"
  r_underspecified_cases :: "message list"

text \<open>
  The scan of \<open>main\<close> over the fetched messages, in the order of the code; the first
  exception that a step raises ends the run. Printing is left out.
\<close>

definition main_scan ::
  "(string \<Rightarrow> datetime option) \<Rightarrow> int \<Rightarrow> string option \<Rightarrow> (string \<Rightarrow> string \<Rightarrow> completion) \<Rightarrow>
   (string \<Rightarrow> json option) \<Rightarrow> message list \<Rightarrow> error + report" where
  "main_scan date_parse now_year api_key service json_loads messages =
     (case text_lengths messages of
        Inl e \<Rightarrow> Inl e
      | Inr lengths \<Rightarrow>
     (case duplicate_scan messages of
        Inl e \<Rightarrow> Inl e
      | Inr duplicate_msgs \<Rightarrow>
     (case detect_burst_messages date_parse messages 5 30 of
        Inl e \<Rightarrow> Inl e
      | Inr burst_cases \<Rightarrow>
     (case detect_underspecified_requests_gpt api_key service json_loads messages 80 of
        Inl e \<Rightarrow> Inl e
      | Inr underspecified_cases \<Rightarrow>
          Inr \<lparr>r_duplicate_msgs = duplicate_msgs,
               r_missing_user = filter (\<lambda>m. \<not> truthy (get (m_member_name m))) messages,
               r_missing_text = filter (\<lambda>m. \<not> truthy (get (m_text m))) messages,
               r_missing_timestamp = filter (\<lambda>m. \<not> truthy (get (m_timestamp m))) messages,
               r_short_msgs = filter (\<lambda>m. length (trimmed_text m) < 5) messages,
               r_impossible_times = impossible_times date_parse now_year messages,
               r_burst_cases = burst_cases,
               r_underspecified_cases = underspecified_cases\<rparr>))))"

definition main ::
  "(nat \<Rightarrow> int \<Rightarrow> int \<Rightarrow> response) \<Rightarrow> (string \<Rightarrow> datetime option) \<Rightarrow> int \<Rightarrow> string option \<Rightarrow>
   (string \<Rightarrow> string \<Rightarrow> completion) \<Rightarrow> (string \<Rightarrow> json option) \<Rightarrow> error + report" where
  "main source date_parse now_year api_key service json_loads =
     main_scan date_parse now_year api_key service json_loads (fetch_messages source 500)"

section \<open>Retrieval (\<^verbatim>\<open>retrieve_top\<close>, qa.py)\<close>

text \<open>\<^verbatim>\<open>f"{m.get('member_name','')} :: {m.get('text','')}"\<close>\<close>

definition msg_text :: "message \<Rightarrow> string" where
  "msg_text m =
     py_str (get_default (m_member_name m) (PyStr [])) @ '' :: '' @ py_str (get_default (m_text m) (PyStr []))"

text \<open>
  \<^verbatim>\<open>rapidfuzz.process.extract\<close> is a library function; the scorer \<^verbatim>\<open>fuzz.token_set_ratio\<close>
  is a parameter. \<open>process_extract\<close> scores every choice and returns the triples (choice, score,
  index) of the \<open>limit\<close> best, the highest score first and equal scores in the order of
  the choices.
\<close>

definition process_extract :: "(string \<Rightarrow> string \<Rightarrow> real) \<Rightarrow> string \<Rightarrow> string list \<Rightarrow> int \<Rightarrow> (string \<times> real \<times> nat) list" where
  "process_extract scorer query choices limit =
     take (nat limit)
       (sort_key (\<lambda>(choice, score, idx). - score)
          (map (\<lambda>(idx, choice). (choice, scorer query choice, idx)) (enumerate 0 choices)))"

definition retrieve_top :: "(string \<Rightarrow> string \<Rightarrow> real) \<Rightarrow> message list \<Rightarrow> string \<Rightarrow> int \<Rightarrow> message list" where
  "retrieve_top scorer messages question k =
     (if messages = [] then []
      else
        (let corpus = map (\<lambda>m. (msg_text m, m)) messages;
             strings = map fst corpus;
             results = process_extract scorer question strings (min k (int (length strings)));
             ranked = map (\<lambda>(c, score, idx). snd (corpus ! idx))
                        (filter (\<lambda>(c, score, idx). score \<ge> 40) results);
             ranked = (if ranked = [] then map snd (py_take k corpus) else ranked)
         in py_take k ranked))"

section \<open>Building the context (\<^verbatim>\<open>format_context\<close>, qa.py)\<close>

text \<open>
  Lines 104 to 109 for one snippet. \<^verbatim>\<open>re.sub\<close> raises \<open>TypeError\<close> when
  \<^verbatim>\<open>m.get("text", "")\<close> is \<open>None\<close>.
\<close>

definition render_line :: "message \<Rightarrow> error + string" where
  "render_line m =
     (let name = get (m_member_name m); ts = get (m_timestamp m); mid = get (m_id m) in
      case get_default (m_text m) (PyStr []) of
        PyNone \<Rightarrow> Inl TypeError
      | PyStr t \<Rightarrow>
          Inr (''- '' @ py_str name @ '' | '' @ py_str ts @ '' | '' @ py_str mid @ '': '' @
               strip (collapse_ws t)))"

fun format_loop :: "message list \<Rightarrow> int \<Rightarrow> string list \<Rightarrow> int \<Rightarrow> error + string list" where
  "format_loop [] max_chars lines used = Inr lines"
| "format_loop (m # snippets) max_chars lines used =
     (case render_line m of
        Inl e \<Rightarrow> Inl e
      | Inr line \<Rightarrow>
          if used + int (length line) > max_chars then Inr lines
          else format_loop snippets max_chars (lines @ [line]) (used + int (length line)))"

definition format_context :: "message list \<Rightarrow> int \<Rightarrow> error + string" where
  "format_context snippets max_chars =
     (case format_loop snippets max_chars [] 0 of
        Inl e \<Rightarrow> Inl e
      | Inr lines \<Rightarrow> Inr (join newline lines))"

section \<open>Example data\<close>

text \<open>
  Concrete inputs for the examples below. \<open>mk_message\<close> builds a message as
  \<open>fetch_messages\<close> delivers it. The example parsers are finite tables of what
  \<^verbatim>\<open>dateutil\<close> returns for the timestamps used, with instants counted in seconds from
  2024-01-01T00:00:00 UTC.
\<close>

definition empty_dict :: message where
  "empty_dict = \<lparr>m_id = None, m_user_id = None, m_user_name = None, m_message = None,
     m_timestamp = None, m_member_id = None, m_member_name = None, m_text = None\<rparr>"

definition mk_message :: "string \<Rightarrow> string \<Rightarrow> string \<Rightarrow> string \<Rightarrow> message" where
  "mk_message i u t ts =
     empty_dict\<lparr>m_id := Some (PyStr i), m_member_id := Some PyNone, m_member_name := Some (PyStr u),
       m_text := Some (PyStr t), m_timestamp := Some (PyStr ts)\<rparr>"

definition naive :: "int \<Rightarrow> int \<Rightarrow> datetime" where
  "naive y secs = \<lparr>dt_year = y, dt_micros = secs * 1000000, dt_aware = False\<rparr>"

definition aware :: "int \<Rightarrow> int \<Rightarrow> datetime" where
  "aware y secs = \<lparr>dt_year = y, dt_micros = secs * 1000000, dt_aware = True\<rparr>"

definition ex_parse :: "string \<Rightarrow> datetime option" where
  "ex_parse = map_of
     [(''2024-01-01T10:00:00'', naive 2024 36000),
      (''2024-01-01T10:00:20'', naive 2024 36020),
      (''2031-05-05T00:00:00'', naive 2031 231638400)]"

definition ex_burst_msgs :: "message list" where
  "ex_burst_msgs =
     [mk_message ''2'' ''A'' ''hi'' ''2024-01-01T10:00:20'',
      mk_message ''1'' ''A'' ''hello'' ''2024-01-01T10:00:00'']"

definition ex_dup_msgs :: "message list" where
  "ex_dup_msgs =
     [mk_message ''1'' ''A'' ''  hello '' ''2024-01-01T10:00:00'',
      mk_message ''2'' ''B'' ''hello'' ''2024-01-01T10:00:20'',
      mk_message ''3'' ''A'' ''   '' ''2024-01-01T10:00:20'',
      mk_message ''4'' ''B'' ''bye'' ''2024-01-01T10:00:20'']"

definition ex_future_msg :: message where
  "ex_future_msg = mk_message ''5'' ''A'' ''see you'' ''2031-05-05T00:00:00''"

definition ex_malformed_msg :: message where
  "ex_malformed_msg = mk_message ''6'' ''A'' ''hello'' ''not a date''"

definition ex_ts_msgs :: "message list" where
  "ex_ts_msgs =
     [ex_future_msg, ex_malformed_msg,
      mk_message ''7'' ''B'' ''hello'' ''2024-01-01T10:00:00'',
      (mk_message ''8'' ''B'' ''hello'' [])\<lparr>m_timestamp := None\<rparr>]"

text \<open>
  Two timestamps in ISO 8601 with UTC offsets: 09:00 at +00:00 is the instant 32400,
  10:00 at +05:00 is 05:00 UTC, the instant 18000.
\<close>

definition ex_tz_parse :: "string \<Rightarrow> datetime option" where
  "ex_tz_parse = map_of
     [(''2024-01-01T09:00:00+00:00'', aware 2024 32400),
      (''2024-01-01T10:00:00+05:00'', aware 2024 18000)]"

definition ex_tz_msgs :: "message list" where
  "ex_tz_msgs =
     [mk_message ''1'' ''A'' ''good morning'' ''2024-01-01T10:00:00+05:00'',
      mk_message ''2'' ''A'' ''still there?'' ''2024-01-01T09:00:00+00:00'']"

text \<open>Two timestamps \<open>2 ^ 34\<close> seconds and one microsecond apart.\<close>

definition ex_far_parse :: "string \<Rightarrow> datetime option" where
  "ex_far_parse = map_of
     [(''1480-01-01T00:00:00'',
         \<lparr>dt_year = 1480, dt_micros = - 17166988800000000, dt_aware = False\<rparr>),
      (''2024-05-29T01:53:04.000001'',
         \<lparr>dt_year = 2024, dt_micros = 12880384000001, dt_aware = False\<rparr>)]"

definition ex_far_msgs :: "message list" where
  "ex_far_msgs =
     [mk_message ''1'' ''A'' ''hello'' ''1480-01-01T00:00:00'',
      mk_message ''2'' ''A'' ''again'' ''2024-05-29T01:53:04.000001'']"

text \<open>A candidate message, and what \<^verbatim>\<open>json.loads\<close> returns for two replies.\<close>

definition ex_book_msg :: message where
  "ex_book_msg =
     mk_message ''2'' ''A'' ''Please book a private jet to Paris for this Friday'' ''2024-01-01T10:00:00''"

definition ex_loads :: "string \<Rightarrow> json option" where
  "ex_loads = map_of
     [(''[1, 1]'', JArr [JInt 1, JInt 1]),
      (''[true]'', JArr [JBool True])]"

text \<open>A message whose name, timestamp, id and text are empty strings: its context line has 10 characters.\<close>

definition ex_blank_msg :: message where
  "ex_blank_msg = mk_message [] [] [] []"

text \<open>A stand-in for the scorer: 100 when the question occurs in the choice, 0 otherwise.\<close>

definition ex_scorer :: "string \<Rightarrow> string \<Rightarrow> real" where
  "ex_scorer question choice = (if is_substring question choice then 100 else 0)"

text \<open>
  Raw records as the source delivers them, and three sources: one that always has a
  full page of as many records as asked for, one whose first two requests fail, and
  one that has two records at offset 0 and nothing beyond.
\<close>

definition raw_record :: "string \<Rightarrow> message" where
  "raw_record i =
     empty_dict\<lparr>m_id := Some (PyStr i), m_user_id := Some (PyStr ''u1''), m_user_name := Some (PyStr ''A''),
       m_message := Some (PyStr ''hello''), m_timestamp := Some (PyStr ''2024-01-01T10:00:00'')\<rparr>"

definition always_full :: "nat \<Rightarrow> int \<Rightarrow> int \<Rightarrow> response" where
  "always_full n skip limit = Items (replicate (nat limit) (raw_record ''r''))"

definition fails_twice :: "nat \<Rightarrow> int \<Rightarrow> int \<Rightarrow> response" where
  "fails_twice n skip limit = (if n < 2 then Raises else Items (replicate (nat limit) (raw_record ''r'')))"

definition two_then_empty :: "nat \<Rightarrow> int \<Rightarrow> int \<Rightarrow> response" where
  "two_then_empty n skip limit =
     (if skip = 0 then Items [raw_record ''a'', raw_record ''b''] else Items [])"

section \<open>Lemmas on Python lists, dicts and strings\<close>

lemma keys_defaultdict_append:
  "map fst (defaultdict_append u m d) = (if u \<in> fst ` set d then map fst d else map fst d @ [u])"
  by (induction d) (auto simp: rev_image_eqI)

lemma map_of_defaultdict_append:
  "map_of (defaultdict_append u m d) =
     (map_of d)(u \<mapsto> (case map_of d u of None \<Rightarrow> [m] | Some ms \<Rightarrow> ms @ [m]))"
  by (induction d) (auto simp: fun_eq_iff)

lemma defaultdict_append_members:
  "(k', vs) \<in> set (defaultdict_append k v d) \<Longrightarrow>
     (k', vs) \<in> set d \<or> (k' = k \<and> (vs = [v] \<or> (\<exists>vs0. (k, vs0) \<in> set d \<and> vs = vs0 @ [v])))"
  by (induction d) (auto split: if_splits)

lemma py_nth_same_index:
  assumes "py_nth xs i = Inr x" "py_nth ys i = Inr y" "length xs = length ys"
  shows "\<exists>j < length xs. x = xs ! j \<and> y = ys ! j"
proof -
  let ?j = "nat (if i < 0 then int (length xs) + i else i)"
  from assms have "?j < length xs \<and> x = xs ! ?j \<and> y = ys ! ?j"
    by (auto simp: py_nth_def Let_def split: if_splits)
  then show ?thesis by blast
qed

lemma py_range_nonempty: "py_range n \<noteq> [] \<Longrightarrow> 1 \<le> n"
  by (cases "1 \<le> n") (auto simp: py_range_def)

lemma set_py_take: "set (py_take k xs) \<subseteq> set xs"
  by (auto simp: py_take_def dest: in_set_takeD)

lemma length_py_take: "1 \<le> k \<Longrightarrow> length (py_take k xs) = min (nat k) (length xs)"
  by (simp add: py_take_def)

lemma map_py_take: "map f (py_take k xs) = py_take k (map f xs)"
  by (simp add: py_take_def take_map)

lemma py_take_idem: "0 \<le> k \<Longrightarrow> py_take k (py_take k xs) = py_take k xs"
  by (simp add: py_take_def)

lemma hd_dropWhile_not: "dropWhile P xs \<noteq> [] \<Longrightarrow> \<not> P (hd (dropWhile P xs))"
  by (induction xs) auto

lemma last_dropWhile_eq: "dropWhile P xs \<noteq> [] \<Longrightarrow> last (dropWhile P xs) = last xs"
  by (induction xs) (auto split: if_splits)

lemma strip_trimmed:
  assumes "strip s \<noteq> []"
  shows "\<not> is_space (hd (strip s)) \<and> \<not> is_space (last (strip s))"
proof -
  define t where "t = dropWhile is_space s"
  define u where "u = dropWhile is_space (rev t)"
  have s: "strip s = rev u" by (simp add: strip_def t_def u_def)
  with assms have u: "u \<noteq> []" by simp
  then have t: "t \<noteq> []" by (auto simp: u_def)
  have "last (strip s) = hd u" using u by (simp add: s last_rev)
  moreover have "\<not> is_space (hd u)" using u unfolding u_def by (rule hd_dropWhile_not)
  moreover have "hd (strip s) = last u" using u by (simp add: s hd_rev)
  moreover have "last u = last (rev t)" using u unfolding u_def by (rule last_dropWhile_eq)
  moreover have "last (rev t) = hd t" using t by (simp add: last_rev)
  moreover have "\<not> is_space (hd t)" using t unfolding t_def by (rule hd_dropWhile_not)
  ultimately show ?thesis by simp
qed

lemma length_join:
  "length (join sep ls) = sum_list (map length ls) + length sep * (length ls - 1)"
  by (induction sep ls rule: join.induct) auto

section \<open>The rounding of \<open>total_seconds\<close>\<close>

text \<open>
  The double nearest to a quotient differs from it by at most the quotient times
  \<open>2 ^ -53\<close>. So when \<open>total_seconds d\<close> is at most an integer \<open>w\<close> below \<open>2 ^ 33\<close> in
  absolute value, the \<open>d\<close> microseconds themselves are at most \<open>w\<close> seconds.
\<close>

lemma round_half_even_error: "\<bar>of_int (round_half_even y) - y\<bar> \<le> 1 / 2"
proof -
  have "of_int \<lfloor>y\<rfloor> \<le> y" "y < of_int \<lfloor>y\<rfloor> + 1" by linarith+
  then show ?thesis
    by (auto simp: round_half_even_def Let_def)
qed

lemma bit_length_floorlog: "bit_length n = int (floorlog 2 (nat n))"
proof (induction n rule: bit_length.induct)
  case (1 n)
  show ?case
  proof (cases "n \<le> 0")
    case True
    then show ?thesis by (subst bit_length.simps) (simp add: floorlog_def)
  next
    case False
    then have "bit_length n = 1 + int (floorlog 2 (nat (n div 2)))"
      using 1 by (subst bit_length.simps) simp
    moreover have "floorlog 2 (nat n) = floorlog 2 (nat n div 2) + 1"
      using False by (subst compute_floorlog) simp
    moreover have "nat n div 2 = nat (n div 2)" by (simp add: nat_div_distrib)
    ultimately show ?thesis by simp
  qed
qed

lemma binade_lower:
  assumes "a \<noteq> 0" "0 < b"
  shows "power_int 2 (int (floorlog 2 (nat \<bar>a\<bar>)) - int (floorlog 2 (nat b)) - 1)
           \<le> \<bar>(of_int a :: rat) / of_int b\<bar>"
proof -
  define la where "la = floorlog 2 (nat \<bar>a\<bar>)"
  define lb where "lb = floorlog 2 (nat b)"
  have pa: "0 < nat \<bar>a\<bar>" using assms by simp
  have pb: "0 < nat b" using assms by simp
  from floorlog_bounds[OF pa, of 2] have a1: "2 ^ (la - 1) \<le> nat \<bar>a\<bar>" by (simp add: la_def)
  from floorlog_bounds[OF pb, of 2] have b1: "nat b < 2 ^ lb" by (simp add: lb_def)
  have la1: "1 \<le> la" using pa by (simp add: la_def floorlog_def)
  have a2: "(2::rat) ^ (la - 1) \<le> of_int \<bar>a\<bar>"
  proof -
    from a1 have "int (2 ^ (la - 1)) \<le> int (nat \<bar>a\<bar>)" by (rule iffD2[OF of_nat_le_iff])
    then have "(2::int) ^ (la - 1) \<le> \<bar>a\<bar>" by simp
    then have "(of_int ((2::int) ^ (la - 1)) :: rat) \<le> of_int \<bar>a\<bar>" by (rule iffD2[OF of_int_le_iff])
    then show ?thesis by simp
  qed
  have b2: "(of_int b :: rat) \<le> 2 ^ lb"
  proof -
    from b1 have "int (nat b) < int (2 ^ lb)" by (rule iffD2[OF of_nat_less_iff])
    then have "b \<le> 2 ^ lb" using assms by simp
    then have "(of_int b :: rat) \<le> of_int (2 ^ lb)" by (rule iffD2[OF of_int_le_iff])
    then show ?thesis by simp
  qed
  have e: "int la - int lb - 1 = int (la - 1) - int lb" using la1 by simp
  have "power_int (2::rat) (int la - int lb - 1) = 2 ^ (la - 1) / 2 ^ lb"
    unfolding e by (simp add: power_int_diff)
  also have "\<dots> \<le> of_int \<bar>a\<bar> / of_int b"
    using a2 b2 assms by (intro frac_le) simp_all
  also have "\<dots> = \<bar>(of_int a :: rat) / of_int b\<bar>" using assms by simp
  finally show ?thesis by (simp add: la_def lb_def)
qed

lemma true_div_error:
  assumes "0 < b"
  shows "\<bar>true_div a b - of_int a / of_int b\<bar> \<le> \<bar>of_int a / of_int b\<bar> / 2 ^ 53"
proof (cases "a = 0")
  case True
  then show ?thesis by (simp add: true_div_def)
next
  case False
  define x :: rat where "x = of_int a / of_int b"
  define k where "k = bit_length \<bar>a\<bar> - bit_length b"
  define e where "e = (if power_int 2 k \<le> \<bar>x\<bar> then k else k - 1)"
  define q :: rat where "q = power_int 2 (e - 52)"
  have t: "true_div a b = of_int (round_half_even (x / q)) * q"
    using False by (simp add: true_div_def Let_def x_def k_def e_def q_def)
  have e: "power_int 2 e \<le> \<bar>x\<bar>"
    using binade_lower[OF False assms] by (auto simp: e_def k_def x_def bit_length_floorlog)
  have q: "0 < q" by (simp add: q_def)
  have "\<bar>true_div a b - x\<bar> = \<bar>of_int (round_half_even (x / q)) - x / q\<bar> * q"
  proof -
    have "true_div a b - x = (of_int (round_half_even (x / q)) - x / q) * q"
      using q by (simp add: t left_diff_distrib)
    then show ?thesis using q by (simp add: abs_mult)
  qed
  also have "\<dots> \<le> 1 / 2 * q"
    using round_half_even_error[of "x / q"] q by (intro mult_right_mono) simp_all
  also have "1 / 2 * q = power_int 2 e / 2 ^ 53"
  proof -
    have "e - 52 = e - int 52" by simp
    have "q = power_int 2 e / 2 ^ 52"
      unfolding q_def by (subst \<open>e - 52 = e - int 52\<close>, subst power_int_diff) simp_all
    then show ?thesis by simp
  qed
  also have "\<dots> \<le> \<bar>x\<bar> / 2 ^ 53" using e by (simp add: divide_right_mono)
  finally show ?thesis by (simp add: x_def)
qed

lemma total_seconds_exact:
  assumes "\<bar>w\<bar> < 2 ^ 33" "total_seconds d \<le> of_int w"
  shows "d \<le> w * 1000000"
proof (rule ccontr)
  assume "\<not> d \<le> w * 1000000"
  then have d: "w * 1000000 + 1 \<le> d" by simp
  define x :: rat where "x = of_int d / 1000000"
  have "\<bar>total_seconds d - x\<bar> \<le> \<bar>x\<bar> / 2 ^ 53"
    using true_div_error[of 1000000 d] by (simp add: total_seconds_def x_def)
  then have "x - \<bar>x\<bar> / 2 ^ 53 \<le> total_seconds d" by linarith
  with assms(2) have "x - \<bar>x\<bar> / 2 ^ 53 \<le> of_int w" by linarith
  then have "2 ^ 53 * x - \<bar>x\<bar> \<le> 2 ^ 53 * of_int w" by (simp add: field_simps)
  then have "1000000 * (2 ^ 53 * x - \<bar>x\<bar>) \<le> 1000000 * (2 ^ 53 * of_int w)"
    by (intro mult_left_mono) simp_all
  then have "(of_int (2 ^ 53 * d - \<bar>d\<bar>) :: rat) \<le> of_int (2 ^ 53 * w * 1000000)"
    by (simp add: x_def right_diff_distrib abs_mult abs_divide)
  then have "2 ^ 53 * d - \<bar>d\<bar> \<le> 2 ^ 53 * w * 1000000" by (rule iffD1[OF of_int_le_iff])
  with d assms(1) show False by simp
qed

section \<open>Properties of burst detection\<close>

lemma group_by_user_snoc:
  "group_by_user (xs @ [m]) = defaultdict_append (user_of m) m (group_by_user xs)"
  by (simp add: group_by_user_def)

lemma distinct_group_by_user: "distinct (map fst (group_by_user xs))"
proof (induction xs rule: rev_induct)
  case Nil
  show ?case by (simp add: group_by_user_def)
next
  case (snoc m xs)
  then show ?case
    by (auto simp: group_by_user_snoc keys_defaultdict_append)
qed

lemma map_of_group_by_user:
  "map_of (group_by_user xs) u =
     (if u \<in> user_of ` set xs then Some (filter (\<lambda>m. user_of m = u) xs) else None)"
proof (induction xs arbitrary: u rule: rev_induct)
  case Nil
  show ?case by (simp add: group_by_user_def)
next
  case (snoc m xs)
  show ?case
  proof (cases "u = user_of m")
    case True
    show ?thesis
    proof (cases "user_of m \<in> user_of ` set xs")
      case True
      with \<open>u = user_of m\<close> show ?thesis
        by (simp add: group_by_user_snoc map_of_defaultdict_append snoc.IH)
    next
      case False
      then have "filter (\<lambda>x. user_of x = user_of m) xs = []"
        unfolding filter_empty_conv image_iff by metis
      with False \<open>u = user_of m\<close> show ?thesis
        by (simp add: group_by_user_snoc map_of_defaultdict_append snoc.IH)
    qed
  next
    case False
    then show ?thesis
      by (simp add: group_by_user_snoc map_of_defaultdict_append snoc.IH)
  qed
qed

lemma group_by_user_member:
  assumes "(u, ms) \<in> set (group_by_user xs)"
  shows "ms = filter (\<lambda>m. user_of m = u) xs"
proof -
  from assms have "map_of (group_by_user xs) u = Some ms"
    by (simp add: distinct_group_by_user)
  then show ?thesis
    by (simp add: map_of_group_by_user split: if_splits)
qed

lemma parse_all_length:
  "parse_all date_parse ss = Inr ds \<Longrightarrow> length ds = length ss"
  by (induction ss arbitrary: ds) (auto split: option.splits sum.splits)

lemma parse_all_nth:
  "parse_all date_parse ss = Inr ds \<Longrightarrow> j < length ss \<Longrightarrow> date_parse (ss ! j) = Some (ds ! j)"
proof (induction ss arbitrary: ds j)
  case Nil
  then show ?case by simp
next
  case (Cons s ss)
  then show ?case
    by (cases j) (auto split: option.splits sum.splits)
qed

lemma scan_windows_Some:
  assumes "scan_windows ts vs user tc w is = Inr (Some b)"
  shows "b_user b = user \<and> b_count b = tc \<and> is \<noteq> [] \<and>
         (\<exists>i s e ms me. py_nth ts i = Inr s \<and> py_nth ts (i + tc - 1) = Inr e \<and>
            py_nth vs i = Inr ms \<and> py_nth vs (i + tc - 1) = Inr me \<and>
            dt_sub e s = Inr (dt_micros e - dt_micros s) \<and> total_seconds (dt_micros e - dt_micros s) \<le> of_int w \<and>
            b_start b = get (m_timestamp ms) \<and> b_end b = get (m_timestamp me))"
  using assms
proof (induction "is")
  case Nil
  then show ?case by simp
next
  case (Cons i rest)
  show ?case
  proof (cases "\<exists>s e d. py_nth ts i = Inr s \<and> py_nth ts (i + tc - 1) = Inr e \<and> dt_sub e s = Inr d \<and> total_seconds d \<le> of_int w")
    case True
    then obtain s e d where h: "py_nth ts i = Inr s" "py_nth ts (i + tc - 1) = Inr e"
      "dt_sub e s = Inr d" "total_seconds d \<le> of_int w" by blast
    from h(3) have d: "d = dt_micros e - dt_micros s" by (auto simp: dt_sub_def split: if_splits)
    from Cons.prems h obtain ms me where m: "py_nth vs i = Inr ms" "py_nth vs (i + tc - 1) = Inr me"
      "b = \<lparr>b_user = user, b_count = tc, b_start = get (m_timestamp ms), b_end = get (m_timestamp me)\<rparr>"
      by (auto split: sum.splits)
    have "\<exists>i s e ms me. py_nth ts i = Inr s \<and> py_nth ts (i + tc - 1) = Inr e \<and>
            py_nth vs i = Inr ms \<and> py_nth vs (i + tc - 1) = Inr me \<and>
            dt_sub e s = Inr (dt_micros e - dt_micros s) \<and> total_seconds (dt_micros e - dt_micros s) \<le> of_int w \<and>
            b_start b = get (m_timestamp ms) \<and> b_end b = get (m_timestamp me)"
      using h d m
      by (intro exI[of _ i] exI[of _ s] exI[of _ e] exI[of _ ms] exI[of _ me]) simp
    then show ?thesis using m(3) by simp
  next
    case False
    with Cons.prems have "scan_windows ts vs user tc w rest = Inr (Some b)"
      by (auto split: sum.splits if_splits)
    from Cons.IH[OF this] show ?thesis by auto
  qed
qed

lemma detect_user_Some:
  assumes "detect_user date_parse user msgs tc w = Inr (Some b)"
  shows "b_user b = user \<and> b_count b = tc \<and>
         (\<exists>s e. date_parse (py_str (b_start b)) = Some s \<and> date_parse (py_str (b_end b)) = Some e \<and>
                total_seconds (dt_micros e - dt_micros s) \<le> of_int w) \<and>
         tc \<le> int (length (filter (\<lambda>m. truthy (get (m_timestamp m))) msgs))"
proof -
  define vs where "vs = sort_key ts_key (filter (\<lambda>m. truthy (get (m_timestamp m))) msgs)"
  from assms obtain ts where
    p: "parse_all date_parse (map ts_key vs) = Inr ts" and
    sc: "scan_windows ts vs user tc w (py_range (int (length ts) - tc + 1)) = Inr (Some b)"
    by (auto simp: detect_user_def Let_def vs_def split: if_splits sum.splits)
  from parse_all_length[OF p] have len: "length ts = length vs" by simp
  from scan_windows_Some[OF sc] obtain i s e ms me where
    b: "b_user b = user" "b_count b = tc" and
    ne: "py_range (int (length ts) - tc + 1) \<noteq> []" and
    w: "py_nth ts i = Inr s" "py_nth ts (i + tc - 1) = Inr e"
       "py_nth vs i = Inr ms" "py_nth vs (i + tc - 1) = Inr me"
       "total_seconds (dt_micros e - dt_micros s) \<le> of_int w"
       "b_start b = get (m_timestamp ms)" "b_end b = get (m_timestamp me)"
    by blast
  from py_nth_same_index[OF w(1) w(3) len] obtain j where
    j: "j < length ts" "s = ts ! j" "ms = vs ! j" by blast
  from py_nth_same_index[OF w(2) w(4) len] obtain k where
    k: "k < length ts" "e = ts ! k" "me = vs ! k" by blast
  from parse_all_nth[OF p, of j] j len have "date_parse (ts_key ms) = Some s" by simp
  moreover from parse_all_nth[OF p, of k] k len have "date_parse (ts_key me) = Some e" by simp
  moreover from py_range_nonempty[OF ne] len
  have "tc \<le> int (length (filter (\<lambda>m. truthy (get (m_timestamp m))) msgs))"
    by (simp add: vs_def)
  ultimately show ?thesis using b w(5,6,7) by (auto simp: ts_key_def)
qed

lemma detect_users_Inr:
  assumes "detect_users date_parse groups tc w = Inr bs" "distinct (map fst groups)"
  shows "distinct (map b_user bs) \<and>
         (\<forall>b\<in>set bs. \<exists>msgs. (b_user b, msgs) \<in> set groups \<and>
              detect_user date_parse (b_user b) msgs tc w = Inr (Some b))"
  using assms
proof (induction groups arbitrary: bs)
  case Nil
  then show ?case by simp
next
  case (Cons g groups)
  obtain user msgs where g: "g = (user, msgs)" by (cases g)
  from Cons.prems(1) g obtain r bs' where
    r: "detect_user date_parse user msgs tc w = Inr r" and
    rest: "detect_users date_parse groups tc w = Inr bs'" and
    bs: "bs = (case r of None \<Rightarrow> [] | Some b \<Rightarrow> [b]) @ bs'"
    by (auto split: sum.splits)
  from Cons.prems(2) have d: "distinct (map fst groups)" and nin: "user \<notin> fst ` set groups"
    by (auto simp: g)
  note IH = Cons.IH[OF rest d]
  show ?case
  proof (cases r)
    case None
    with bs IH show ?thesis by (auto simp: g)
  next
    case (Some b)
    with r detect_user_Some[of date_parse user msgs tc w b] have bu: "b_user b = user" by simp
    have "b_user b \<notin> b_user ` set bs'"
    proof
      assume "b_user b \<in> b_user ` set bs'"
      then obtain b' where "b' \<in> set bs'" "b_user b' = user" using bu by auto
      with IH obtain ms where "(user, ms) \<in> set groups" by blast
      with nin show False by force
    qed
    moreover have "\<exists>ms. (b_user b, ms) \<in> set (g # groups) \<and>
        detect_user date_parse (b_user b) ms tc w = Inr (Some b)"
      using r Some bu g by auto
    ultimately show ?thesis using bs Some IH by (auto simp: g)
  qed
qed

text \<open>
  Claim C3. Whatever the messages, \<open>threshold_count\<close> and \<open>time_window_seconds\<close>, when
  \<open>detect_burst_messages\<close> returns its list of bursts, no two records have the same
  user, and every record has \<open>count = threshold_count\<close>, has start and end timestamps
  that parse to date-times whose difference (end minus start) is at most the window,
  and names a user with at least \<open>threshold_count\<close> messages whose timestamp is present
  (and not empty). The difference is at most the window as the program measures it,
  in seconds as a double, for every window; for a window below \<open>2 ^ 33\<close> seconds in
  absolute value the exact difference in microseconds is at most the window as well.
\<close>

theorem detect_burst_messages_records:
  assumes "detect_burst_messages date_parse messages threshold_count time_window_seconds = Inr bursts"
  shows "distinct (map b_user bursts) \<and>
         (\<forall>b\<in>set bursts.
            b_count b = threshold_count \<and>
            (\<exists>s e. date_parse (py_str (b_start b)) = Some s \<and>
                   date_parse (py_str (b_end b)) = Some e \<and>
                   total_seconds (dt_micros e - dt_micros s) \<le> of_int time_window_seconds \<and>
                   (\<bar>time_window_seconds\<bar> < 2 ^ 33 \<longrightarrow>
                      dt_micros e - dt_micros s \<le> time_window_seconds * 1000000)) \<and>
            threshold_count \<le> int (length (filter
               (\<lambda>m. user_of m = b_user b \<and> truthy (get (m_timestamp m))) messages)))"
proof -
  from assms have du: "detect_users date_parse (group_by_user messages) threshold_count time_window_seconds = Inr bursts"
    by (simp add: detect_burst_messages_def)
  note R = detect_users_Inr[OF du distinct_group_by_user]
  have "b_count b = threshold_count \<and>
            (\<exists>s e. date_parse (py_str (b_start b)) = Some s \<and>
                   date_parse (py_str (b_end b)) = Some e \<and>
                   total_seconds (dt_micros e - dt_micros s) \<le> of_int time_window_seconds \<and>
                   (\<bar>time_window_seconds\<bar> < 2 ^ 33 \<longrightarrow>
                      dt_micros e - dt_micros s \<le> time_window_seconds * 1000000)) \<and>
            threshold_count \<le> int (length (filter
               (\<lambda>m. user_of m = b_user b \<and> truthy (get (m_timestamp m))) messages))"
    if "b \<in> set bursts" for b
  proof -
    from that R obtain msgs where m: "(b_user b, msgs) \<in> set (group_by_user messages)"
      and d: "detect_user date_parse (b_user b) msgs threshold_count time_window_seconds = Inr (Some b)"
      by blast
    from group_by_user_member[OF m] have msgs: "msgs = filter (\<lambda>m. user_of m = b_user b) messages" .
    from detect_user_Some[OF d] obtain s e where
      c: "b_count b = threshold_count" and
      p: "date_parse (py_str (b_start b)) = Some s" "date_parse (py_str (b_end b)) = Some e" and
      t: "total_seconds (dt_micros e - dt_micros s) \<le> of_int time_window_seconds" and
      n: "threshold_count \<le> int (length (filter (\<lambda>m. truthy (get (m_timestamp m))) msgs))"
      by blast
    have x: "\<bar>time_window_seconds\<bar> < 2 ^ 33 \<longrightarrow>
        dt_micros e - dt_micros s \<le> time_window_seconds * 1000000"
      using total_seconds_exact[OF _ t] by blast
    have "threshold_count \<le> int (length (filter
               (\<lambda>m. user_of m = b_user b \<and> truthy (get (m_timestamp m))) messages))"
      using n by (simp add: msgs conj_commute)
    with c p t x show ?thesis by blast
  qed
  with R show ?thesis by blast
qed

text \<open>Two messages of one user twenty seconds apart, with a threshold of 2 and a window of 30 seconds.\<close>

theorem detect_burst_messages_records_witness:
  "detect_burst_messages ex_parse ex_burst_msgs 2 30 =
     Inr [\<lparr>b_user = PyStr ''A'', b_count = 2, b_start = PyStr ''2024-01-01T10:00:00'',
            b_end = PyStr ''2024-01-01T10:00:20''\<rparr>] \<and>
   (\<exists>s e. ex_parse ''2024-01-01T10:00:00'' = Some s \<and> ex_parse ''2024-01-01T10:00:20'' = Some e \<and>
          total_seconds (dt_micros e - dt_micros s) \<le> 30 \<and>
          dt_micros e - dt_micros s \<le> 30 * 1000000) \<and>
   (2::int) \<le> int (length (filter (\<lambda>m. user_of m = PyStr ''A'' \<and> truthy (get (m_timestamp m))) ex_burst_msgs))"
proof -
  have h: "detect_burst_messages ex_parse ex_burst_msgs 2 30 =
     Inr [\<lparr>b_user = PyStr ''A'', b_count = 2, b_start = PyStr ''2024-01-01T10:00:00'',
            b_end = PyStr ''2024-01-01T10:00:20''\<rparr>]"
    by code_simp
  from detect_burst_messages_records[OF h] h show ?thesis by simp
qed

text \<open>
  Beyond that bound the rounding of \<open>total_seconds\<close> shows: a difference of \<open>2 ^ 34\<close>
  seconds and one microsecond is \<open>2 ^ 34\<close> seconds as a double, and with a window of
  \<open>2 ^ 34\<close> seconds two messages that far apart are reported.
\<close>

lemma detect_burst_messages_rounding:
  "total_seconds (2 ^ 34 * 1000000 + 1) = 2 ^ 34 \<and>
   detect_burst_messages ex_far_parse ex_far_msgs 2 (2 ^ 34) =
     Inr [\<lparr>b_user = PyStr ''A'', b_count = 2, b_start = PyStr ''1480-01-01T00:00:00'',
            b_end = PyStr ''2024-05-29T01:53:04.000001''\<rparr>] \<and>
   (12880384000001::int) - (- 17166988800000000) = 2 ^ 34 * 1000000 + 1"
  by code_simp

lemma parse_all_total:
  "\<forall>s\<in>set ss. date_parse s \<noteq> None \<Longrightarrow>
     \<exists>ds. parse_all date_parse ss = Inr ds \<and> length ds = length ss \<and>
          (\<forall>d\<in>set ds. \<exists>s\<in>set ss. date_parse s = Some d)"
proof (induction ss)
  case Nil
  show ?case by simp
next
  case (Cons s ss)
  then obtain d ds where "date_parse s = Some d" "parse_all date_parse ss = Inr ds"
    "length ds = length ss" "\<forall>d\<in>set ds. \<exists>s\<in>set ss. date_parse s = Some d"
    by auto
  then show ?case by auto
qed

lemma scan_windows_total:
  assumes "length vs = length ts" "1 \<le> tc"
    and "\<forall>i\<in>set is. 0 \<le> i \<and> i + tc - 1 < int (length ts)"
    and "\<forall>a\<in>set ts. \<forall>b\<in>set ts. dt_aware a = dt_aware b"
  shows "\<exists>r. scan_windows ts vs user tc w is = Inr r"
  using assms(3)
proof (induction "is")
  case Nil
  show ?case by simp
next
  case (Cons i rest)
  then have i: "0 \<le> i" "i + tc - 1 < int (length ts)" by simp_all
  with assms(2) have i2: "i < int (length ts)" "0 \<le> i + tc - 1" by simp_all
  have a: "py_nth ts i = Inr (ts ! nat i)" "py_nth ts (i + tc - 1) = Inr (ts ! nat (i + tc - 1))"
    "py_nth vs i = Inr (vs ! nat i)" "py_nth vs (i + tc - 1) = Inr (vs ! nat (i + tc - 1))"
    using i i2 assms(1) by (simp_all add: py_nth_def)
  have "ts ! nat i \<in> set ts" "ts ! nat (i + tc - 1) \<in> set ts"
    using i i2 by simp_all
  with assms(4) have "dt_aware (ts ! nat (i + tc - 1)) = dt_aware (ts ! nat i)" by blast
  then have s: "dt_sub (ts ! nat (i + tc - 1)) (ts ! nat i) =
      Inr (dt_micros (ts ! nat (i + tc - 1)) - dt_micros (ts ! nat i))"
    by (simp add: dt_sub_def)
  from Cons have "\<exists>r. scan_windows ts vs user tc w rest = Inr r" by simp
  then show ?case by (auto simp: a s)
qed

text \<open>
  The function returns its list whenever \<open>threshold_count\<close> is at least 1, every
  non-empty timestamp parses, and the parsed date-times are all aware or all naive.
\<close>

lemma detect_burst_messages_returns:
  assumes "1 \<le> threshold_count"
    and "\<forall>m\<in>set messages. truthy (get (m_timestamp m)) \<longrightarrow> date_parse (ts_key m) \<noteq> None"
    and "\<forall>s s' d d'. date_parse s = Some d \<and> date_parse s' = Some d' \<longrightarrow> dt_aware d = dt_aware d'"
  shows "\<exists>bursts. detect_burst_messages date_parse messages threshold_count time_window_seconds = Inr bursts"
proof -
  have user: "\<exists>r. detect_user date_parse user msgs threshold_count time_window_seconds = Inr r"
    if "set msgs \<subseteq> set messages" for user msgs
  proof -
    define vs where "vs = sort_key ts_key (filter (\<lambda>m. truthy (get (m_timestamp m))) msgs)"
    have "\<forall>s\<in>set (map ts_key vs). date_parse s \<noteq> None"
      using assms(2) that by (auto simp: vs_def)
    from parse_all_total[OF this] obtain ts where ts: "parse_all date_parse (map ts_key vs) = Inr ts"
      "length ts = length vs" "\<forall>d\<in>set ts. \<exists>s\<in>set (map ts_key vs). date_parse s = Some d"
      by auto
    have aw: "\<forall>a\<in>set ts. \<forall>b\<in>set ts. dt_aware a = dt_aware b"
      using ts(3) assms(3) by metis
    have rg: "\<forall>i\<in>set (py_range (int (length ts) - threshold_count + 1)).
        0 \<le> i \<and> i + threshold_count - 1 < int (length ts)"
      by (auto simp: py_range_def)
    from scan_windows_total[OF ts(2)[symmetric] assms(1) rg aw]
    obtain r where "scan_windows ts vs user threshold_count time_window_seconds
        (py_range (int (length ts) - threshold_count + 1)) = Inr r" by blast
    with ts(1) show ?thesis
      by (auto simp: detect_user_def Let_def vs_def)
  qed
  have users: "\<exists>bs. detect_users date_parse groups threshold_count time_window_seconds = Inr bs"
    if "\<forall>(u, ms)\<in>set groups. set ms \<subseteq> set messages" for groups
    using that
  proof (induction groups)
    case Nil
    show ?case by simp
  next
    case (Cons g groups)
    obtain u ms where g: "g = (u, ms)" by (cases g)
    with Cons.prems have "set ms \<subseteq> set messages" by simp
    from user[OF this, of u] obtain r where
      "detect_user date_parse u ms threshold_count time_window_seconds = Inr r" by blast
    moreover from Cons obtain bs where
      "detect_users date_parse groups threshold_count time_window_seconds = Inr bs" by auto
    ultimately show ?case by (simp add: g)
  qed
  have "\<forall>(u, ms)\<in>set (group_by_user messages). set ms \<subseteq> set messages"
    using group_by_user_member by fastforce
  from users[OF this] show ?thesis by (simp add: detect_burst_messages_def)
qed

text \<open>
  Claim C4 says that the messages of a user are processed in the order of their parsed
  timestamps. The code sorts by the timestamp strings. Of two messages four hours
  apart whose strings are in the opposite order of their instants, with a threshold of
  2 and a window of 30 seconds, a burst is reported, from the later message to the
  earlier one: the difference of the parsed times is minus four hours.
\<close>

theorem detect_burst_messages_string_order:
  "detect_burst_messages ex_tz_parse ex_tz_msgs 2 30 =
     Inr [\<lparr>b_user = PyStr ''A'', b_count = 2, b_start = PyStr ''2024-01-01T09:00:00+00:00'',
            b_end = PyStr ''2024-01-01T10:00:00+05:00''\<rparr>] \<and>
   ex_tz_parse ''2024-01-01T09:00:00+00:00'' = Some (aware 2024 32400) \<and>
   ex_tz_parse ''2024-01-01T10:00:00+05:00'' = Some (aware 2024 18000) \<and>
   dt_micros (aware 2024 18000) - dt_micros (aware 2024 32400) = - 14400 * 1000000"
  by code_simp

section \<open>Properties of the scanner\<close>

lemma impossible_times_filter:
  "impossible_times date_parse now_year messages =
     filter (\<lambda>m. \<exists>s dt. m_timestamp m = Some (PyStr s) \<and> s \<noteq> [] \<and> date_parse s = Some dt \<and>
                          now_year + 2 < dt_year dt) messages"
proof (induction messages)
  case Nil
  show ?case by simp
next
  case (Cons m ms)
  show ?case
  proof (cases "m_timestamp m")
    case None
    with Cons show ?thesis by (simp add: get_def)
  next
    case (Some v)
    with Cons show ?thesis
      by (cases v) (auto simp: get_def Let_def split: option.splits)
  qed
qed

text \<open>
  Claim C9. The impossible-timestamp list holds exactly the messages whose timestamp is
  present (a non-empty string), parses, and has a year strictly greater than the
  current year plus 2, in the order of the input; a message whose timestamp is absent
  or \<open>None\<close>, and a message whose timestamp does not parse, is never in it.
\<close>

theorem impossible_times_exact:
  "impossible_times date_parse now_year messages =
     filter (\<lambda>m. \<exists>s dt. m_timestamp m = Some (PyStr s) \<and> s \<noteq> [] \<and> date_parse s = Some dt \<and>
                          now_year + 2 < dt_year dt) messages \<and>
   (\<forall>m\<in>set messages. get (m_timestamp m) = PyNone \<longrightarrow>
        m \<notin> set (impossible_times date_parse now_year messages)) \<and>
   (\<forall>m\<in>set messages. \<forall>s. m_timestamp m = Some (PyStr s) \<and> date_parse s = None \<longrightarrow>
        m \<notin> set (impossible_times date_parse now_year messages))"
  unfolding impossible_times_filter by (auto simp: get_def)

text \<open>In 2026, of a message dated 2031, a malformed one, one dated 2024 and one without timestamp, only the first is kept.\<close>

theorem impossible_times_exact_witness:
  "impossible_times ex_parse 2026 ex_ts_msgs = [ex_future_msg] \<and>
   filter (\<lambda>m. \<exists>s dt. m_timestamp m = Some (PyStr s) \<and> s \<noteq> [] \<and> ex_parse s = Some dt \<and>
                        2026 + 2 < dt_year dt) ex_ts_msgs = [ex_future_msg] \<and>
   ex_malformed_msg \<in> set ex_ts_msgs \<and> m_timestamp ex_malformed_msg = Some (PyStr ''not a date'') \<and>
   ex_parse ''not a date'' = None \<and>
   ex_malformed_msg \<notin> set (impossible_times ex_parse 2026 ex_ts_msgs)"
proof -
  have e: "impossible_times ex_parse 2026 ex_ts_msgs = [ex_future_msg]"
    by code_simp
  have m: "ex_malformed_msg \<in> set ex_ts_msgs" "m_timestamp ex_malformed_msg = Some (PyStr ''not a date'')"
    "ex_parse ''not a date'' = None"
    by (simp_all add: ex_ts_msgs_def ex_malformed_msg_def mk_message_def ex_parse_def)
  from impossible_times_exact[of ex_parse 2026 ex_ts_msgs] e m show ?thesis
    by (metis (no_types, lifting))
qed

lemma text_map_loop_inv:
  assumes "text_map_loop ms tm = Inr tm'" "set ms \<subseteq> M"
    "distinct (map fst tm)"
    "\<forall>(txt, ids)\<in>set tm. txt \<noteq> [] \<and> \<not> is_space (hd txt) \<and> \<not> is_space (last txt) \<and>
        (\<forall>i\<in>set ids. \<exists>m\<in>M. m_id m = Some i \<and> trimmed_text m = txt)"
  shows "distinct (map fst tm') \<and>
    (\<forall>(txt, ids)\<in>set tm'. txt \<noteq> [] \<and> \<not> is_space (hd txt) \<and> \<not> is_space (last txt) \<and>
        (\<forall>i\<in>set ids. \<exists>m\<in>M. m_id m = Some i \<and> trimmed_text m = txt))"
  using assms
proof (induction ms arbitrary: tm)
  case Nil
  then show ?case by simp
next
  case (Cons m ms)
  show ?case
  proof (cases "trimmed_text m = []")
    case True
    with Cons.prems have "text_map_loop ms tm = Inr tm'" by (simp add: Let_def)
    from Cons.IH[OF this] Cons.prems show ?thesis by simp
  next
    case False
    with Cons.prems(1) obtain i where i: "m_id m = Some i"
      and l: "text_map_loop ms (defaultdict_append (trimmed_text m) i tm) = Inr tm'"
      by (auto simp: Let_def subscript_def split: option.splits)
    have tr: "\<not> is_space (hd (trimmed_text m)) \<and> \<not> is_space (last (trimmed_text m))"
      using False strip_trimmed unfolding trimmed_text_def by blast
    have mM: "m \<in> M" using Cons.prems(2) by simp
    have d: "distinct (map fst (defaultdict_append (trimmed_text m) i tm))"
      using Cons.prems(3) by (auto simp: keys_defaultdict_append)
    have g: "\<forall>(txt, ids)\<in>set (defaultdict_append (trimmed_text m) i tm).
        txt \<noteq> [] \<and> \<not> is_space (hd txt) \<and> \<not> is_space (last txt) \<and>
        (\<forall>i\<in>set ids. \<exists>m\<in>M. m_id m = Some i \<and> trimmed_text m = txt)"
    proof (clarify)
      fix key ids
      assume "(key, ids) \<in> set (defaultdict_append (trimmed_text m) i tm)"
      from defaultdict_append_members[OF this]
      show "key \<noteq> [] \<and> \<not> is_space (hd key) \<and> \<not> is_space (last key) \<and>
        (\<forall>i\<in>set ids. \<exists>m\<in>M. m_id m = Some i \<and> trimmed_text m = key)"
        using Cons.prems(4) False tr mM i by fastforce
    qed
    from Cons.IH[OF l _ d g] Cons.prems(2) show ?thesis by simp
  qed
qed

lemma text_map_loop_total:
  "\<forall>m\<in>set ms. trimmed_text m \<noteq> [] \<longrightarrow> m_id m \<noteq> None \<Longrightarrow> \<exists>tm'. text_map_loop ms tm = Inr tm'"
  by (induction ms arbitrary: tm) (auto simp: Let_def subscript_def split: option.splits)

lemma text_map_loop_KeyError:
  "text_map_loop ms tm = Inl e \<Longrightarrow> e = KeyError \<and> (\<exists>m\<in>set ms. trimmed_text m \<noteq> [] \<and> m_id m = None)"
  by (induction ms arbitrary: tm) (auto simp: Let_def subscript_def split: option.splits if_splits)

text \<open>
  Claim C8. For every message list in which each message with a non-blank text has an
  \<open>id\<close> key, the duplicate-text scan produces a mapping (no key twice) whose keys are
  non-empty texts without leading or trailing whitespace; every group has at least 2
  ids, and every id listed is the id of a message of the input whose trimmed text is
  the key of the group.
\<close>

theorem duplicate_scan_groups:
  assumes "\<forall>m\<in>set messages. trimmed_text m \<noteq> [] \<longrightarrow> m_id m \<noteq> None"
  shows "\<exists>duplicate_msgs. duplicate_scan messages = Inr duplicate_msgs \<and>
    distinct (map fst duplicate_msgs) \<and>
    (\<forall>(txt, ids)\<in>set duplicate_msgs.
        txt \<noteq> [] \<and> \<not> is_space (hd txt) \<and> \<not> is_space (last txt) \<and> 2 \<le> length ids \<and>
        (\<forall>i\<in>set ids. \<exists>m\<in>set messages. m_id m = Some i \<and> trimmed_text m = txt))"
proof -
  from text_map_loop_total[OF assms] obtain tm where tm: "text_map_loop messages [] = Inr tm"
    by blast
  from text_map_loop_inv[OF tm, of "set messages"]
  have inv: "distinct (map fst tm) \<and>
    (\<forall>(txt, ids)\<in>set tm. txt \<noteq> [] \<and> \<not> is_space (hd txt) \<and> \<not> is_space (last txt) \<and>
        (\<forall>i\<in>set ids. \<exists>m\<in>set messages. m_id m = Some i \<and> trimmed_text m = txt))"
    by simp
  have "duplicate_scan messages = Inr (filter (\<lambda>(txt, ids). length ids > 1) tm)"
    by (simp add: duplicate_scan_def tm)
  moreover have "distinct (map fst (filter (\<lambda>(txt, ids). length ids > 1) tm))"
    using inv by (simp add: distinct_map_filter)
  moreover have "\<forall>(txt, ids)\<in>set (filter (\<lambda>(txt, ids). length ids > 1) tm).
        txt \<noteq> [] \<and> \<not> is_space (hd txt) \<and> \<not> is_space (last txt) \<and> 2 \<le> length ids \<and>
        (\<forall>i\<in>set ids. \<exists>m\<in>set messages. m_id m = Some i \<and> trimmed_text m = txt)"
    using inv by auto
  ultimately show ?thesis by blast
qed

text \<open>Four messages: two share the text ``hello'' up to surrounding blanks, one is blank.\<close>

theorem duplicate_scan_groups_witness:
  "list_all (\<lambda>m. trimmed_text m \<noteq> [] \<longrightarrow> m_id m \<noteq> None) ex_dup_msgs \<and>
   duplicate_scan ex_dup_msgs = Inr [(''hello'', [PyStr ''1'', PyStr ''2''])] \<and>
   (\<exists>m\<in>set ex_dup_msgs. m_id m = Some (PyStr ''2'') \<and> trimmed_text m = ''hello'')"
proof -
  have h: "\<forall>m\<in>set ex_dup_msgs. trimmed_text m \<noteq> [] \<longrightarrow> m_id m \<noteq> None"
    by (simp add: ex_dup_msgs_def mk_message_def)
  have e: "duplicate_scan ex_dup_msgs = Inr [(''hello'', [PyStr ''1'', PyStr ''2''])]"
    by code_simp
  from duplicate_scan_groups[OF h] e h show ?thesis
    unfolding list_all_iff by simp
qed

text \<open>
  Claim C2 says that the scan never raises on a timestamp that is present but does
  not parse. On one message with the timestamp \<^verbatim>\<open>not a date\<close> the impossible-timestamp
  check skips it, but \<open>detect_burst_messages\<close> parses it outside any \<^verbatim>\<open>try\<close> and the
  \<open>ParserError\<close> ends the whole scan.
\<close>

theorem main_scan_malformed_timestamp:
  "main_scan ex_parse 2026 None (\<lambda>sys usr. Call_raises) ex_loads [ex_malformed_msg] = Inl ParserError \<and>
   detect_burst_messages ex_parse [ex_malformed_msg] 5 30 = Inl ParserError \<and>
   impossible_times ex_parse 2026 [ex_malformed_msg] = []"
  by code_simp

section \<open>Properties of the classifier\<close>

lemma map_indices_count:
  "1 \<le> i \<Longrightarrow> i \<le> int (length cands) \<Longrightarrow>
     count_list js (JInt i) \<le> count_list (map_indices cands js) (cands ! nat (i - 1))"
proof (induction js)
  case Nil
  show ?case by simp
next
  case (Cons j js)
  then show ?case
    by (cases j) (auto split: option.splits)
qed

text \<open>
  Claim C10. With a credential configured, at least one candidate and a reply that
  parses to a JSON array, the classifier returns one candidate message for each entry
  that passes the index test, in the order of the entries: a valid index \<open>i\<close> that
  occurs several times in the array puts candidate \<open>i\<close> into the result at least as
  many times. Nothing removes repetitions.
\<close>

theorem detect_underspecified_repeats:
  assumes "api_key = Some key" "key \<noteq> []"
    and "candidate_msgs messages = Inr cands" "cands \<noteq> []"
    and "service system_prompt (user_prompt (py_take max_examples cands)) = Content content"
    and "json_loads (strip content) = Some (JArr entries)"
    and "1 \<le> i" "i \<le> int (length (py_take max_examples cands))"
  shows "\<exists>result. detect_underspecified_requests_gpt api_key service json_loads messages max_examples = Inr result \<and>
           result = map_indices (py_take max_examples cands) entries \<and>
           count_list entries (JInt i) \<le> count_list result (py_take max_examples cands ! nat (i - 1))"
  using assms map_indices_count[of i "py_take max_examples cands" entries]
  by (simp add: detect_underspecified_requests_gpt_def Let_def)

text \<open>The reply \<^verbatim>\<open>[1, 1]\<close> on one candidate returns that candidate twice.\<close>

theorem detect_underspecified_repeats_witness:
  "candidate_msgs [ex_book_msg] = Inr [ex_book_msg] \<and>
   ex_loads (strip ''[1, 1]'') = Some (JArr [JInt 1, JInt 1]) \<and>
   (1::int) \<le> int (length (py_take 80 [ex_book_msg])) \<and>
   detect_underspecified_requests_gpt (Some ''sk-test'') (\<lambda>sys usr. Content ''[1, 1]'') ex_loads [ex_book_msg] 80 =
     Inr [ex_book_msg, ex_book_msg] \<and>
   count_list [JInt 1, JInt 1] (JInt 1) = 2 \<and>
   count_list [ex_book_msg, ex_book_msg] ex_book_msg = 2"
proof -
  have c: "candidate_msgs [ex_book_msg] = Inr [ex_book_msg]" by code_simp
  have l: "ex_loads (strip ''[1, 1]'') = Some (JArr [JInt 1, JInt 1])" by code_simp
  have t: "py_take 80 [ex_book_msg] = [ex_book_msg]" by (simp add: py_take_def)
  have s: "(\<lambda>sys usr. Content ''[1, 1]'') system_prompt (user_prompt (py_take 80 [ex_book_msg])) = Content ''[1, 1]''"
    by simp
  from detect_underspecified_repeats[of "Some ''sk-test''" "''sk-test''" "[ex_book_msg]" "[ex_book_msg]"
      "\<lambda>sys usr. Content ''[1, 1]''" 80 "''[1, 1]''" ex_loads "[JInt 1, JInt 1]" 1, OF _ _ c _ s l]
  have "detect_underspecified_requests_gpt (Some ''sk-test'') (\<lambda>sys usr. Content ''[1, 1]'') ex_loads [ex_book_msg] 80 =
     Inr [ex_book_msg, ex_book_msg]"
    by (simp add: t)
  with c l t show ?thesis by simp
qed

text \<open>
  The fail-soft branches of the classifier: no credential, a call that raises, a reply
  that is not JSON and a reply that is not an array all give the empty list; on an
  array of integers the entries in range are mapped back in order.
\<close>

lemma detect_underspecified_fail_soft:
  "api_key = None \<or> api_key = Some [] \<Longrightarrow>
     detect_underspecified_requests_gpt api_key service json_loads messages max_examples = Inr []"
  "candidate_msgs messages = Inr cands \<Longrightarrow>
   service system_prompt (user_prompt (py_take max_examples cands)) = Call_raises \<Longrightarrow>
     detect_underspecified_requests_gpt api_key service json_loads messages max_examples = Inr []"
  "candidate_msgs messages = Inr cands \<Longrightarrow>
   service system_prompt (user_prompt (py_take max_examples cands)) = Content content \<Longrightarrow>
   json_loads (strip content) = None \<Longrightarrow>
     detect_underspecified_requests_gpt api_key service json_loads messages max_examples = Inr []"
  "candidate_msgs messages = Inr cands \<Longrightarrow>
   service system_prompt (user_prompt (py_take max_examples cands)) = Content content \<Longrightarrow>
   json_loads (strip content) = Some j \<Longrightarrow> \<forall>entries. j \<noteq> JArr entries \<Longrightarrow>
     detect_underspecified_requests_gpt api_key service json_loads messages max_examples = Inr []"
  by (auto simp: detect_underspecified_requests_gpt_def Let_def split: json.splits)

lemma map_indices_ints:
  "map_indices cands (map JInt is) =
     map (\<lambda>i. cands ! nat (i - 1)) (filter (\<lambda>i. 1 \<le> i \<and> i \<le> int (length cands)) is)"
  by (induction "is") auto

text \<open>
  Claim C7 says that every entry of the reply that is not an integer is ignored. The
  reply \<^verbatim>\<open>[true]\<close> parses to a list holding the boolean \<open>True\<close>, which passes
  \<^verbatim>\<open>isinstance(i, int)\<close> and the range test as the number 1: the first candidate is
  returned for an entry that is not an integer.
\<close>

theorem detect_underspecified_true_entry:
  "detect_underspecified_requests_gpt (Some ''sk-test'') (\<lambda>sys usr. Content ''[true]'') ex_loads [ex_book_msg] 80 =
     Inr [ex_book_msg]"
  by code_simp

section \<open>Properties of retrieval\<close>

lemma process_extract_member:
  assumes "(c, score, idx) \<in> set (process_extract scorer q choices limit)"
  shows "idx < length choices \<and> c = choices ! idx \<and> score = scorer q c"
proof -
  from assms have "(c, score, idx) \<in> set (map (\<lambda>(idx, choice). (choice, scorer q choice, idx)) (enumerate 0 choices))"
    unfolding process_extract_def by (auto dest: in_set_takeD)
  then obtain i ch where "(i, ch) \<in> set (enumerate 0 choices)" "c = ch" "score = scorer q ch" "idx = i"
    by auto
  then show ?thesis by (auto simp: in_set_enumerate_eq)
qed

lemma length_process_extract:
  "length (process_extract scorer q choices limit) = min (nat limit) (length choices)"
  by (simp add: process_extract_def)

text \<open>
  Claim C6. \<open>retrieve_top\<close> on an empty message list returns the empty list; every
  message it returns is an element of the input list; and on a non-empty list, for
  \<open>k \<ge> 1\<close>, it returns at least 1 and at most \<open>k\<close> messages, namely the first \<open>k\<close>
  messages in their original order when no message scores at least 40.
\<close>

theorem retrieve_top_bounds:
  "retrieve_top scorer [] question k = [] \<and>
   set (retrieve_top scorer messages question k) \<subseteq> set messages \<and>
   (messages \<noteq> [] \<and> 1 \<le> k \<longrightarrow>
      1 \<le> length (retrieve_top scorer messages question k) \<and>
      int (length (retrieve_top scorer messages question k)) \<le> k \<and>
      ((\<forall>m\<in>set messages. scorer question (msg_text m) < 40) \<longrightarrow>
         retrieve_top scorer messages question k = py_take k messages))"
proof -
  define corpus where "corpus = map (\<lambda>m. (msg_text m, m)) messages"
  define results where "results = process_extract scorer question (map fst corpus) (min k (int (length (map fst corpus))))"
  define ranked where "ranked = map (\<lambda>(c, score, idx). snd (corpus ! idx)) (filter (\<lambda>(c, score, idx). score \<ge> 40) results)"
  have rt: "messages \<noteq> [] \<Longrightarrow> retrieve_top scorer messages question k =
      py_take k (if ranked = [] then map snd (py_take k corpus) else ranked)"
    by (simp add: retrieve_top_def Let_def corpus_def results_def ranked_def)
  have fb: "map snd (py_take k corpus) = py_take k messages"
    by (simp add: map_py_take corpus_def comp_def)
  have res: "idx < length messages \<and> c = msg_text (messages ! idx) \<and> score = scorer question c"
    if "(c, score, idx) \<in> set results" for c score idx
    using process_extract_member[OF that[unfolded results_def]] by (simp add: corpus_def)
  have ranked_sub: "set ranked \<subseteq> set messages"
  proof
    fix x assume "x \<in> set ranked"
    then obtain c score idx where "(c, score, idx) \<in> set results" "x = snd (corpus ! idx)"
      by (auto simp: ranked_def)
    with res[of c score idx] show "x \<in> set messages" by (simp add: corpus_def)
  qed
  have empty: "retrieve_top scorer [] question k = []" by (simp add: retrieve_top_def)
  have sub: "set (retrieve_top scorer messages question k) \<subseteq> set messages"
  proof (cases "messages = []")
    case True
    then show ?thesis by (simp add: retrieve_top_def)
  next
    case False
    show ?thesis
      using set_py_take[of k ranked] set_py_take[of k "py_take k messages"] set_py_take[of k messages] ranked_sub
      by (auto simp: rt[OF False] fb)
  qed
  have cnt: "1 \<le> length (retrieve_top scorer messages question k) \<and>
      int (length (retrieve_top scorer messages question k)) \<le> k \<and>
      ((\<forall>m\<in>set messages. scorer question (msg_text m) < 40) \<longrightarrow>
         retrieve_top scorer messages question k = py_take k messages)"
    if ne: "messages \<noteq> []" and k: "1 \<le> k"
  proof -
    have n: "1 \<le> length messages" using ne by (cases messages) simp_all
    have a: "1 \<le> length (retrieve_top scorer messages question k) \<and>
      int (length (retrieve_top scorer messages question k)) \<le> k"
    proof (cases "ranked = []")
      case True
      then show ?thesis using k n by (auto simp: rt[OF ne] fb py_take_idem length_py_take min_def)
    next
      case False
      then have "1 \<le> length ranked" by (cases ranked) simp_all
      then show ?thesis using k False by (auto simp: rt[OF ne] length_py_take min_def)
    qed
    have b: "retrieve_top scorer messages question k = py_take k messages"
      if low: "\<forall>m\<in>set messages. scorer question (msg_text m) < 40"
    proof -
      have "filter (\<lambda>(c, score, idx). score \<ge> 40) results = []"
      proof -
        have "\<not> score \<ge> 40" if "(c, score, idx) \<in> set results" for c score idx
        proof -
          from res[OF that] have "idx < length messages" "score = scorer question (msg_text (messages ! idx))"
            by simp_all
          with low show ?thesis by (metis not_le nth_mem)
        qed
        then show ?thesis by (auto simp: filter_empty_conv)
      qed
      then have "ranked = []" by (simp add: ranked_def)
      then show ?thesis using k by (simp add: rt[OF ne] fb py_take_idem)
    qed
    from a b show ?thesis by blast
  qed
  from empty sub cnt show ?thesis by blast
qed

text \<open>No message matches the question: the first three of the four messages are returned.\<close>

theorem retrieve_top_bounds_witness:
  "ex_dup_msgs \<noteq> [] \<and> (1::int) \<le> 3 \<and>
   list_all (\<lambda>m. ex_scorer ''zebra'' (msg_text m) < 40) ex_dup_msgs \<and>
   retrieve_top ex_scorer ex_dup_msgs ''zebra'' 3 = py_take 3 ex_dup_msgs \<and>
   1 \<le> length (retrieve_top ex_scorer ex_dup_msgs ''zebra'' 3) \<and>
   int (length (retrieve_top ex_scorer ex_dup_msgs ''zebra'' 3)) \<le> 3 \<and>
   set (retrieve_top ex_scorer ex_dup_msgs ''zebra'' 3) \<subseteq> set ex_dup_msgs"
proof -
  have h1: "ex_dup_msgs \<noteq> []" by (simp add: ex_dup_msgs_def)
  have h2: "\<forall>m\<in>set ex_dup_msgs. ex_scorer ''zebra'' (msg_text m) < 40"
    by (simp add: ex_dup_msgs_def ex_scorer_def msg_text_def mk_message_def get_default_def)
  have h3: "(1::int) \<le> 3" by simp
  from retrieve_top_bounds[of ex_scorer "''zebra''" 3 ex_dup_msgs] h1 h2 h3 show ?thesis
    unfolding list_all_iff by blast
qed

section \<open>Properties of the context builder\<close>

lemma format_loop_Inr:
  assumes "format_loop snippets max_chars lines used = Inr out"
  shows "\<exists>new. out = lines @ new \<and> length new \<le> length snippets \<and>
           map render_line (take (length new) snippets) = map Inr new \<and>
           (new \<noteq> [] \<longrightarrow> used + int (sum_list (map length new)) \<le> max_chars) \<and>
           (length new < length snippets \<longrightarrow>
              (\<exists>line. render_line (snippets ! length new) = Inr line \<and>
                      used + int (sum_list (map length new)) + int (length line) > max_chars))"
  using assms
proof (induction snippets arbitrary: lines used)
  case Nil
  then show ?case by simp
next
  case (Cons m snippets)
  from Cons.prems obtain line where line: "render_line m = Inr line"
    by (auto split: sum.splits)
  show ?case
  proof (cases "used + int (length line) > max_chars")
    case True
    with Cons.prems line have "out = lines" by simp
    with True line show ?thesis by (intro exI[of _ "[]"]) simp
  next
    case False
    with Cons.prems line
    have "format_loop snippets max_chars (lines @ [line]) (used + int (length line)) = Inr out"
      by simp
    from Cons.IH[OF this] obtain new where new: "out = (lines @ [line]) @ new"
      "length new \<le> length snippets"
      "map render_line (take (length new) snippets) = map Inr new"
      "new \<noteq> [] \<longrightarrow> used + int (length line) + int (sum_list (map length new)) \<le> max_chars"
      "length new < length snippets \<longrightarrow>
         (\<exists>l. render_line (snippets ! length new) = Inr l \<and>
              used + int (length line) + int (sum_list (map length new)) + int (length l) > max_chars)"
      by blast
    show ?thesis
    proof (intro exI[of _ "line # new"] conjI)
      show "out = lines @ line # new" using new(1) by simp
      show "length (line # new) \<le> length (m # snippets)" using new(2) by simp
      show "map render_line (take (length (line # new)) (m # snippets)) = map Inr (line # new)"
        using new(3) line by simp
      show "line # new \<noteq> [] \<longrightarrow> used + int (sum_list (map length (line # new))) \<le> max_chars"
        using new(4) False by (cases "new = []") auto
      show "length (line # new) < length (m # snippets) \<longrightarrow>
              (\<exists>l. render_line ((m # snippets) ! length (line # new)) = Inr l \<and>
                  used + int (sum_list (map length (line # new))) + int (length l) > max_chars)"
        using new(5) by (simp add: add.assoc)
    qed
  qed
qed

text \<open>
  Claim C5, amended. \<open>format_context\<close> checks before appending each rendered line
  whether the running total of line lengths plus the length of that line would exceed
  \<open>max_chars\<close>, and stops for good if so: the lines of the result are the rendered lines
  of a prefix of the snippets, the first snippet left out (if any) is one whose line
  did not fit, and the running total before and after appending the last included
  line is at most \<open>max_chars\<close>. The separating newlines are not counted in the running
  total: the returned string has the length of the included lines plus one for each
  line after the first, so it is at most \<open>max_chars\<close> plus the number of included lines
  minus one.
\<close>

theorem format_context_budget:
  assumes "format_context snippets max_chars = Inr s"
  shows "\<exists>lines. length lines \<le> length snippets \<and>
           map render_line (take (length lines) snippets) = map Inr lines \<and>
           s = join newline lines \<and>
           (lines \<noteq> [] \<longrightarrow> int (sum_list (map length (butlast lines))) \<le> max_chars \<and>
                           int (sum_list (map length lines)) \<le> max_chars) \<and>
           (length lines < length snippets \<longrightarrow>
              (\<exists>line. render_line (snippets ! length lines) = Inr line \<and>
                      int (sum_list (map length lines)) + int (length line) > max_chars)) \<and>
           length s = sum_list (map length lines) + (length lines - 1) \<and>
           (lines \<noteq> [] \<longrightarrow> int (length s) \<le> max_chars + (int (length lines) - 1))"
proof -
  from assms obtain lines where l: "format_loop snippets max_chars [] 0 = Inr lines"
    and s: "s = join newline lines"
    by (auto simp: format_context_def split: sum.splits)
  from format_loop_Inr[OF l] have p:
    "length lines \<le> length snippets"
    "map render_line (take (length lines) snippets) = map Inr lines"
    "lines \<noteq> [] \<longrightarrow> int (sum_list (map length lines)) \<le> max_chars"
    "length lines < length snippets \<longrightarrow>
       (\<exists>line. render_line (snippets ! length lines) = Inr line \<and>
               int (sum_list (map length lines)) + int (length line) > max_chars)"
    by auto
  have len: "length s = sum_list (map length lines) + (length lines - 1)"
    by (simp add: s length_join newline_def)
  have bl: "sum_list (map length (butlast lines)) \<le> sum_list (map length lines)"
    by (induction lines) auto
  have "lines \<noteq> [] \<longrightarrow> int (length s) \<le> max_chars + (int (length lines) - 1)"
  proof
    assume ne: "lines \<noteq> []"
    then have "1 \<le> length lines" by (cases lines) simp_all
    then have "int (length lines - 1) = int (length lines) - 1" by linarith
    with ne p(3) len show "int (length s) \<le> max_chars + (int (length lines) - 1)" by simp
  qed
  with p s len bl show ?thesis
    by (intro exI[of _ lines]) auto
qed

text \<open>
  Claim C5 as stated bounds the result by \<open>max_chars\<close> plus the length of the line that
  stopped the loop. With \<open>max_chars = 120\<close> and thirteen snippets whose lines have 10
  characters each, twelve lines are included (120 characters), the thirteenth stops
  the loop, and the result has 131 characters with its eleven newlines: more than
  120 + 10.
\<close>

theorem format_context_counterexample:
  "format_context (replicate 13 ex_blank_msg) 120 = Inr (join newline (replicate 12 ''-  |  | : '')) \<and>
   render_line ex_blank_msg = Inr ''-  |  | : '' \<and>
   length (join newline (replicate 12 ''-  |  | : '')) = 131 \<and>
   \<not> (131 \<le> 120 + length ''-  |  | : '')"
  by code_simp

text \<open>Three snippets with lines of 10 characters and \<open>max_chars = 25\<close>: two lines are included.\<close>

theorem format_context_budget_witness:
  "format_context (replicate 3 ex_blank_msg) 25 = Inr (join newline (replicate 2 ''-  |  | : '')) \<and>
   (\<exists>lines. length lines \<le> length (replicate 3 ex_blank_msg) \<and>
           map render_line (take (length lines) (replicate 3 ex_blank_msg)) = map Inr lines \<and>
           join newline (replicate 2 ''-  |  | : '') = join newline lines \<and>
           (lines \<noteq> [] \<longrightarrow> int (sum_list (map length (butlast lines))) \<le> 25 \<and>
                           int (sum_list (map length lines)) \<le> 25) \<and>
           (length lines < length (replicate 3 ex_blank_msg) \<longrightarrow>
              (\<exists>line. render_line (replicate 3 ex_blank_msg ! length lines) = Inr line \<and>
                      int (sum_list (map length lines)) + int (length line) > 25)) \<and>
           length (join newline (replicate 2 ''-  |  | : '')) = sum_list (map length lines) + (length lines - 1) \<and>
           (lines \<noteq> [] \<longrightarrow> int (length (join newline (replicate 2 ''-  |  | : ''))) \<le> 25 + (int (length lines) - 1)))"
proof -
  have h: "format_context (replicate 3 ex_blank_msg) 25 = Inr (join newline (replicate 2 ''-  |  | : ''))"
    by code_simp
  from format_context_budget[OF h] h show ?thesis by blast
qed

section \<open>Properties of fetching\<close>

text \<open>
  What a run of the loop with \<open>left\<close> iterations does from a state \<open>st\<close> in which \<open>n\<close>
  requests have been made: the offsets \<open>new\<close> it requests, how each follows from the
  one before, why it stopped before using all iterations, and what it accumulated.
\<close>

lemma fetch_loop_trace:
  assumes "fetch_loop source limit left n st = (ex, st')"
  shows "\<exists>new. fs_requests st' = fs_requests st @ map (\<lambda>skip. (skip, 100)) new \<and> length new \<le> left \<and>
     (0 < left \<longrightarrow> new \<noteq> [] \<and> hd new = fs_skip st) \<and>
     (\<forall>j. Suc j < length new \<longrightarrow>
        (source (n + j) (new ! j) 100 = Raises \<and> new ! Suc j = new ! j) \<or>
        (nonempty_page (source (n + j) (new ! j) 100) \<and> new ! Suc j = new ! j + 100 \<and>
         new ! j + 100 < limit)) \<and>
     (new \<noteq> [] \<and> length new < left \<longrightarrow>
        source (n + length new - 1) (last new) 100 = Status403 \<or>
        source (n + length new - 1) (last new) 100 = Status401 \<or>
        source (n + length new - 1) (last new) 100 = Items [] \<or>
        (nonempty_page (source (n + length new - 1) (last new) 100) \<and> limit \<le> last new + 100)) \<and>
     fs_all_msgs st' =
        fs_all_msgs st @ concat (map (\<lambda>(k, skip). page_items (source k skip 100)) (enumerate n new)) \<and>
     (ex = Returned \<longleftrightarrow>
        new \<noteq> [] \<and> (source (n + length new - 1) (last new) 100 = Status403 \<or>
                     source (n + length new - 1) (last new) 100 = Status401))"
  (is "\<exists>new. ?P left n st new")
  using assms
proof (induction left arbitrary: n st)
  case 0
  then show ?case by (intro exI[of _ "[]"]) auto
next
  case (Suc left)
  define st1 where "st1 = st\<lparr>fs_requests := fs_requests st @ [(fs_skip st, 100)]\<rparr>"
  define st2 where "st2 = st1\<lparr>fs_all_msgs := fs_all_msgs st1 @ page_items (source n (fs_skip st) 100),
                               fs_skip := fs_skip st1 + 100\<rparr>"
  have single1: "?P (Suc left) n st [fs_skip st]"
    if "st' = st1" "page_items (source n (fs_skip st) 100) = []"
       "source n (fs_skip st) 100 = Status403 \<or> source n (fs_skip st) 100 = Status401 \<or>
        source n (fs_skip st) 100 = Items []"
       "ex = Returned \<longleftrightarrow> source n (fs_skip st) 100 = Status403 \<or> source n (fs_skip st) 100 = Status401"
    using that by (auto simp: st1_def)
  have single2: "?P (Suc left) n st [fs_skip st]"
    if "st' = st2" "nonempty_page (source n (fs_skip st) 100)" "limit \<le> fs_skip st + 100" "ex = Loop_left"
    using that by (auto simp: st1_def st2_def)
  have cons: "?P (Suc left) n st (fs_skip st # new)"
    if IH: "?P left (Suc n) stn new"
      and stn: "stn = st1 \<or> stn = st2"
      and r: "(stn = st1 \<and> source n (fs_skip st) 100 = Raises) \<or>
              (stn = st2 \<and> nonempty_page (source n (fs_skip st) 100) \<and> fs_skip st + 100 < limit)"
    for stn new
  proof -
    have req: "fs_requests st' = fs_requests st @ map (\<lambda>skip. (skip, 100)) (fs_skip st # new)"
      using IH stn by (auto simp: st1_def st2_def)
    have len: "length (fs_skip st # new) \<le> Suc left" using IH by simp
    have nxt: "new \<noteq> [] \<Longrightarrow> hd new = fs_skip stn \<and> 0 < left" using IH by (cases left) auto
    have chain: "(source (n + j) ((fs_skip st # new) ! j) 100 = Raises \<and>
            (fs_skip st # new) ! Suc j = (fs_skip st # new) ! j) \<or>
          (nonempty_page (source (n + j) ((fs_skip st # new) ! j) 100) \<and>
            (fs_skip st # new) ! Suc j = (fs_skip st # new) ! j + 100 \<and>
            (fs_skip st # new) ! j + 100 < limit)"
      if j: "Suc j < length (fs_skip st # new)" for j
    proof (cases j)
      case 0
      with j have ne: "new \<noteq> []" by auto
      then have "new ! 0 = fs_skip stn" using nxt by (simp add: hd_conv_nth)
      with 0 r show ?thesis by (auto simp: st1_def st2_def page_size_def)
    next
      case (Suc j')
      with j have "Suc j' < length new" by simp
      with IH have "(source (Suc n + j') (new ! j') 100 = Raises \<and> new ! Suc j' = new ! j') \<or>
        (nonempty_page (source (Suc n + j') (new ! j') 100) \<and> new ! Suc j' = new ! j' + 100 \<and>
         new ! j' + 100 < limit)" by blast
      with Suc show ?thesis by simp
    qed
    have stop: "source (n + length (fs_skip st # new) - 1) (last (fs_skip st # new)) 100 = Status403 \<or>
        source (n + length (fs_skip st # new) - 1) (last (fs_skip st # new)) 100 = Status401 \<or>
        source (n + length (fs_skip st # new) - 1) (last (fs_skip st # new)) 100 = Items [] \<or>
        (nonempty_page (source (n + length (fs_skip st # new) - 1) (last (fs_skip st # new)) 100) \<and>
         limit \<le> last (fs_skip st # new) + 100)"
      if "length (fs_skip st # new) < Suc left"
    proof -
      from that have l: "length new < left" by simp
      then have "0 < left" by simp
      with IH have ne: "new \<noteq> []" by blast
      with IH l have "source (Suc n + length new - 1) (last new) 100 = Status403 \<or>
        source (Suc n + length new - 1) (last new) 100 = Status401 \<or>
        source (Suc n + length new - 1) (last new) 100 = Items [] \<or>
        (nonempty_page (source (Suc n + length new - 1) (last new) 100) \<and> limit \<le> last new + 100)"
        by blast
      with ne show ?thesis by simp
    qed
    have msgs: "fs_all_msgs st' = fs_all_msgs st @
        concat (map (\<lambda>(k, skip). page_items (source k skip 100)) (enumerate n (fs_skip st # new)))"
      using IH r by (auto simp: st1_def st2_def)
    have ret: "ex = Returned \<longleftrightarrow>
        (source (n + length (fs_skip st # new) - 1) (last (fs_skip st # new)) 100 = Status403 \<or>
         source (n + length (fs_skip st # new) - 1) (last (fs_skip st # new)) 100 = Status401)"
    proof (cases "new = []")
      case True
      with IH r show ?thesis by auto
    next
      case False
      with IH show ?thesis by simp
    qed
    from req len chain stop msgs ret show ?thesis by simp
  qed
  show ?case
  proof (cases "source n (fs_skip st) 100")
    case Status403
    with Suc.prems have "ex = Returned" "st' = st1" by (simp_all add: st1_def page_size_def)
    with Status403 single1 show ?thesis by (intro exI[of _ "[fs_skip st]"]) simp
  next
    case Status401
    with Suc.prems have "ex = Returned" "st' = st1" by (simp_all add: st1_def page_size_def)
    with Status401 single1 show ?thesis by (intro exI[of _ "[fs_skip st]"]) simp
  next
    case Raises
    with Suc.prems have "fetch_loop source limit left (Suc n) st1 = (ex, st')"
      by (simp add: st1_def page_size_def)
    from Suc.IH[OF this] obtain new where "?P left (Suc n) st1 new" by blast
    from cons[OF this] Raises show ?thesis by blast
  next
    case (Items items)
    show ?thesis
    proof (cases "items = []")
      case True
      with Items Suc.prems have "ex = Loop_left" "st' = st1" by (simp_all add: st1_def page_size_def)
      with Items True single1 show ?thesis by (intro exI[of _ "[fs_skip st]"]) simp
    next
      case False
      show ?thesis
      proof (cases "fs_skip st + 100 \<ge> limit")
        case True
        with Items False Suc.prems have "ex = Loop_left" "st' = st2"
          by (simp_all add: st1_def st2_def Let_def page_size_def)
        with Items False True single2 show ?thesis by (intro exI[of _ "[fs_skip st]"]) simp
      next
        case lt: False
        with Items False Suc.prems have "fetch_loop source limit left (Suc n) st2 = (ex, st')"
          by (simp add: st1_def st2_def Let_def page_size_def)
        from Suc.IH[OF this] obtain new where "?P left (Suc n) st2 new" by blast
        from cons[OF this] Items False lt show ?thesis by (intro exI[of _ "fs_skip st # new"]) simp
      qed
    qed
  qed
qed

lemma responses_nth:
  "j < length reqs \<Longrightarrow> responses source reqs ! j = source j (fst (reqs ! j)) (snd (reqs ! j))"
  by (simp add: responses_def nth_enumerate_eq case_prod_unfold)

lemma responses_last:
  assumes "reqs \<noteq> []"
  shows "last (responses source reqs) = source (length reqs - 1) (fst (last reqs)) (snd (last reqs))"
proof -
  have len: "length (responses source reqs) = length reqs" by (simp add: responses_def)
  with assms have ne: "responses source reqs \<noteq> []" by auto
  have "last (responses source reqs) = responses source reqs ! (length reqs - 1)"
    using last_conv_nth[OF ne] len by simp
  also have "\<dots> = source (length reqs - 1) (fst (reqs ! (length reqs - 1))) (snd (reqs ! (length reqs - 1)))"
    using assms by (intro responses_nth) simp
  also have "reqs ! (length reqs - 1) = last reqs"
    using assms by (simp add: last_conv_nth)
  finally show ?thesis .
qed

lemma map_enumerate_map:
  "map g (enumerate n (map f xs)) = map (\<lambda>(k, x). g (k, f x)) (enumerate n xs)"
  by (induction xs arbitrary: n) simp_all

lemma responses_items:
  "concat (map page_items (responses source (map (\<lambda>skip. (skip, 100)) offs))) =
     concat (map (\<lambda>(k, skip). page_items (source k skip 100)) (enumerate 0 offs))"
  by (simp add: responses_def map_enumerate_map comp_def case_prod_unfold)

lemma m_id_normalize: "map m_id (map normalize ms) = map m_id ms"
  by (simp add: normalize_def comp_def)

text \<open>
  Claim C1, amended. For every \<open>limit\<close>, \<open>fetch_messages\<close> requests pages of 100
  records, the first at offset 0, and makes at least one and at most 3 requests in
  all: the three iterations are one budget shared by paging and retrying. After a
  request that raises, the next request asks for the same offset again; after a
  non-empty page the offset advances by 100, and the next request is made only if the
  new offset is below \<open>limit\<close>. When fewer than 3 requests were made, the last one was
  answered with status 403 or 401 or with an empty page, or with a non-empty page that
  brought the offset to \<open>limit\<close>. The result has one record for each record of the
  pages received, in their order.
\<close>

theorem fetch_messages_requests:
  assumes "reqs = fs_requests (fetch_run source limit)" and "rs = responses source reqs"
  shows "1 \<le> length reqs \<and> length reqs \<le> 3 \<and>
    map snd reqs = replicate (length reqs) 100 \<and> fst (reqs ! 0) = 0 \<and>
    (\<forall>j. Suc j < length reqs \<longrightarrow>
       (rs ! j = Raises \<and> fst (reqs ! Suc j) = fst (reqs ! j)) \<or>
       (nonempty_page (rs ! j) \<and> fst (reqs ! Suc j) = fst (reqs ! j) + 100 \<and>
        fst (reqs ! j) + 100 < limit)) \<and>
    (length reqs < 3 \<longrightarrow>
       last rs = Status403 \<or> last rs = Status401 \<or> last rs = Items [] \<or>
       (nonempty_page (last rs) \<and> limit \<le> fst (last reqs) + 100)) \<and>
    length (fetch_messages source limit) = length (concat (map page_items rs)) \<and>
    map m_id (fetch_messages source limit) = map m_id (concat (map page_items rs))"
proof -
  define st0 where "st0 = \<lparr>fs_all_msgs = [], fs_skip = 0, fs_requests = []\<rparr>"
  obtain ex st' where run: "fetch_loop source limit 3 0 st0 = (ex, st')"
    by (cases "fetch_loop source limit 3 0 st0")
  from fetch_loop_trace[OF run] obtain new where
    n1: "fs_requests st' = map (\<lambda>skip. (skip, 100)) new" and
    n2: "length new \<le> 3" and
    n3: "new \<noteq> []" "hd new = 0" and
    n4: "\<forall>j. Suc j < length new \<longrightarrow>
        (source j (new ! j) 100 = Raises \<and> new ! Suc j = new ! j) \<or>
        (nonempty_page (source j (new ! j) 100) \<and> new ! Suc j = new ! j + 100 \<and> new ! j + 100 < limit)" and
    n5: "length new < 3 \<longrightarrow>
        source (length new - 1) (last new) 100 = Status403 \<or>
        source (length new - 1) (last new) 100 = Status401 \<or>
        source (length new - 1) (last new) 100 = Items [] \<or>
        (nonempty_page (source (length new - 1) (last new) 100) \<and> limit \<le> last new + 100)" and
    n6: "fs_all_msgs st' = concat (map (\<lambda>(k, skip). page_items (source k skip 100)) (enumerate 0 new))"
    by (auto simp: st0_def)
  have reqs: "reqs = map (\<lambda>skip. (skip, 100)) new"
    using run n1 by (cases ex) (simp_all add: assms(1) fetch_run_def st0_def)
  have len: "length reqs = length new" by (simp add: reqs)
  have nth: "fst (reqs ! j) = new ! j \<and> snd (reqs ! j) = 100" if "j < length new" for j
    using that by (simp add: reqs)
  have lst: "fst (last reqs) = last new \<and> snd (last reqs) = 100"
    using n3(1) by (simp add: reqs last_map)
  have a: "1 \<le> length reqs \<and> length reqs \<le> 3 \<and> fst (reqs ! 0) = 0"
    using n2 n3 by (cases new) (simp_all add: reqs)
  have a': "map snd reqs = replicate (length reqs) 100"
    by (simp add: reqs comp_def map_replicate_const)
  have b: "(rs ! j = Raises \<and> fst (reqs ! Suc j) = fst (reqs ! j)) \<or>
       (nonempty_page (rs ! j) \<and> fst (reqs ! Suc j) = fst (reqs ! j) + 100 \<and>
        fst (reqs ! j) + 100 < limit)"
    if "Suc j < length reqs" for j
  proof -
    from that have j: "j < length new" "Suc j < length new" by (simp_all add: len)
    then have "rs ! j = source j (new ! j) 100"
      using nth[of j] by (simp add: assms(2) responses_nth len)
    with n4 j nth[of j] nth[of "Suc j"] show ?thesis by simp
  qed
  have l: "last rs = source (length new - 1) (last new) 100"
  proof -
    have "reqs \<noteq> []" using n3(1) by (simp add: reqs)
    from responses_last[OF this, of source]
    have "last rs = source (length reqs - 1) (fst (last reqs)) (snd (last reqs))"
      by (simp add: assms(2))
    with lst len show ?thesis by simp
  qed
  have c: "length reqs < 3 \<longrightarrow>
       last rs = Status403 \<or> last rs = Status401 \<or> last rs = Items [] \<or>
       (nonempty_page (last rs) \<and> limit \<le> fst (last reqs) + 100)"
    using n5 lst by (simp add: l len)
  have items: "fs_all_msgs st' = concat (map page_items rs)"
    by (simp add: n6 assms(2) reqs responses_items)
  have d: "fetch_messages source limit = fs_all_msgs st' \<or>
           fetch_messages source limit = map normalize (fs_all_msgs st')"
    using run by (cases ex) (simp_all add: fetch_messages_def fetch_run_def st0_def)
  have e: "length (fetch_messages source limit) = length (concat (map page_items rs)) \<and>
    map m_id (fetch_messages source limit) = map m_id (concat (map page_items rs))"
    using d m_id_normalize[of "fs_all_msgs st'"] by (auto simp: items)
  from a a' b c e show ?thesis by blast
qed

text \<open>
  Claim C1 as stated says that paging goes on until an empty page or until \<open>limit\<close>
  items are accumulated, each page having 3 attempts of its own. With \<open>limit = 500\<close>
  and a source that always has a full page, the fetch stops after the offsets 0, 100
  and 200 with 300 items, although the page at offset 300 is not empty. With a source
  whose first two requests fail, the three requests all ask for offset 0, and the
  fetch stops with the 100 items of the third, although no page failed three times
  and the page at offset 100 is there.
\<close>

theorem fetch_messages_counterexample:
  "fs_requests (fetch_run always_full 500) = [(0, 100), (100, 100), (200, 100)] \<and>
   length (fetch_messages always_full 500) = 300 \<and>
   nonempty_page (always_full 3 300 100) \<and>
   fs_requests (fetch_run fails_twice 500) = [(0, 100), (0, 100), (0, 100)] \<and>
   length (fetch_messages fails_twice 500) = 100 \<and>
   nonempty_page (fails_twice 3 100 100)"
  by code_simp

text \<open>Two records at offset 0, then an empty page: two requests, two records returned.\<close>

theorem fetch_messages_requests_witness:
  "fs_requests (fetch_run two_then_empty 500) = [(0, 100), (100, 100)] \<and>
   responses two_then_empty [(0, 100), (100, 100)] = [Items [raw_record ''a'', raw_record ''b''], Items []] \<and>
   length (fetch_messages two_then_empty 500) = 2 \<and>
   map m_id (fetch_messages two_then_empty 500) = [Some (PyStr ''a''), Some (PyStr ''b'')]"
proof -
  have h1: "fs_requests (fetch_run two_then_empty 500) = [(0, 100), (100, 100)]" by code_simp
  have h2: "responses two_then_empty [(0, 100), (100, 100)] =
      [Items [raw_record ''a'', raw_record ''b''], Items []]"
    by code_simp
  from fetch_messages_requests[OF h1[symmetric] h2[symmetric]]
  have "length (fetch_messages two_then_empty 500) =
          length (concat (map page_items [Items [raw_record ''a'', raw_record ''b''], Items []])) \<and>
        map m_id (fetch_messages two_then_empty 500) =
          map m_id (concat (map page_items [Items [raw_record ''a'', raw_record ''b''], Items []]))"
    by blast
  with h1 h2 show ?thesis by (simp add: raw_record_def empty_dict_def)
qed

end
